theory Spec2Isabelle
  imports Complex_Main
begin

section \<open>The greedy fill-to-cap allocator of the Ateema proposal builder\<close>

text \<open>
  The repository holds two copies of \<^verbatim>\<open>app/ateema/upgrader.py\<close>: the one under
  \<^verbatim>\<open>Ateema_Proposal_Builder_CloudVersion\<close> and the one under
  \<^verbatim>\<open>Ateema_Proposal_Builder_CloudVersion_Final\<close>. They differ in the keyword block-list of
  \<^verbatim>\<open>_is_restricted_tier\<close>, in the special pricing of the product
  "Chicago Does Interactive Map" (only the Final copy has it), and in the warning text. The
  embedding carries the copy as a parameter of type \<open>variant\<close>, so that each function
  is written once and every difference between the copies is a visible case split.

  Prices are Python floats in the source. Inside the allocator they are modelled as
  rationals and its arithmetic is exact. The budgets of the two pools are another matter:
  \<^verbatim>\<open>run_fill_to_cap\<close> computes them with a division and a multiplication whose
  rounding decides whether a pool is over its budget, so these are modelled in double
  precision (\<open>to_double\<close> below).
\<close>

datatype variant = CloudVersion | CloudVersion_Final

subsection \<open>Strings\<close>

text \<open>
  \<^verbatim>\<open>str.lower()\<close>, on the ASCII letters. A string is a list of bytes here, so a letter
  outside ASCII is left as it is.
\<close>

definition lower_char :: "char \<Rightarrow> char" where
  "lower_char c =
     (case map_of (zip ''ABCDEFGHIJKLMNOPQRSTUVWXYZ'' ''abcdefghijklmnopqrstuvwxyz'') c of
        None \<Rightarrow> c
      | Some d \<Rightarrow> d)"

definition lower :: "string \<Rightarrow> string" where
  "lower s = map lower_char s"

text \<open>\<^verbatim>\<open>s.startswith(kw)\<close> and the substring test \<^verbatim>\<open>kw in s\<close>.\<close>

fun startswith :: "string \<Rightarrow> string \<Rightarrow> bool" where
  "startswith s [] = True"
| "startswith [] (k # ks) = False"
| "startswith (c # cs) (k # ks) = (c = k \<and> startswith cs ks)"

fun str_in :: "string \<Rightarrow> string \<Rightarrow> bool" where
  "str_in kw [] = (kw = [])"
| "str_in kw (c # cs) = (startswith (c # cs) kw \<or> str_in kw cs)"

subsection \<open>Restricted tiers\<close>

text \<open>
  The block-list as each copy writes it. In the CloudVersion copy no comma follows
  \<^verbatim>\<open>"Contract with multiple products"\<close>, so Python joins it with the next literal,
  \<^verbatim>\<open>"with campaign"\<close>, into one keyword.
\<close>

definition restricted_keywords :: "variant \<Rightarrow> string list" where
  "restricted_keywords v =
     (case v of
        CloudVersion \<Rightarrow>
          [''with any campaign'',
           ''Contract with multiple products'' @ ''with campaign'',
           ''existing advertiser'',
           ''advertiser rate'',
           ''bundle'',
           ''add-on'',
           ''package price'']
      | CloudVersion_Final \<Rightarrow>
          [''with any campaign'',
           ''Contract with multiple products'',
           ''with campaign'',
           ''existing advertiser'',
           ''advertiser rate'',
           ''bundle'',
           ''add-on'',
           ''package price''])"

definition is_restricted_tier :: "variant \<Rightarrow> string \<Rightarrow> bool \<Rightarrow> bool" where
  "is_restricted_tier v label is_advertiser =
     (if is_advertiser then False
      else
        let lbl = lower label in
        if str_in ''advertiser'' lbl
           \<and> \<not> str_in ''non-advertiser'' lbl
           \<and> \<not> str_in ''non advertiser'' lbl
        then True
        else list_ex (\<lambda>kw. str_in kw lbl) (restricted_keywords v))"

subsection \<open>The Interactive Map pricing (Final copy)\<close>

text \<open>
  \<^verbatim>\<open>map_line_price\<close> returns \<^verbatim>\<open>None\<close> for every product but the map; the quarter
  count is an optional integer, and \<^verbatim>\<open>not interactive_map_quarters\<close> holds for
  \<^verbatim>\<open>None\<close> and for 0.
\<close>

definition map_line_price :: "string \<Rightarrow> string \<Rightarrow> rat \<Rightarrow> int option \<Rightarrow> rat option" where
  "map_line_price pname tier_label eff_base interactive_map_quarters =
     (if pname \<noteq> ''Chicago Does Interactive Map'' then None
      else
        let quarters =
              (case interactive_map_quarters of
                 None \<Rightarrow> 1
               | Some n \<Rightarrow> if n = 0 then 1 else n)
        in Some (eff_base * of_int quarters))"

subsection \<open>Catalog data\<close>

text \<open>
  Modelled from the spec: \<^verbatim>\<open>ateema.models\<close> and \<^verbatim>\<open>ateema.pricing\<close> are not among the
  source files. A price option "has a display name (defaults to the owning product's name if
  absent) and a sequence of (tier label, base price) pairs"; \<^verbatim>\<open>price_points(opt)\<close> yields
  that sequence, so it is the field of the record. A product record is "a named product
  with an ordered sequence of price options".
\<close>

record price_option =
  name :: "string option"
  price_points :: "(string \<times> rat) list"

record product_record =
  price_options :: "price_option list"

text \<open>
  Modelled from the spec: the metadata of one product, "a record holding seasonal
  date-window overrides, advertiser-specific override prices" (its notes are not read by
  the allocator). A date is its day number. The empty record stands for the \<^verbatim>\<open>{}\<close> of
  \<^verbatim>\<open>meta.get(pname, {})\<close>.
\<close>

type_synonym date = int

record product_meta =
  seasonal :: "(string \<times> date \<times> date \<times> rat) list"
  advertiser_price :: "(string \<times> rat) list"

definition empty_meta :: product_meta where
  "empty_meta = \<lparr>seasonal = [], advertiser_price = []\<rparr>"

definition meta_get :: "(string \<rightharpoonup> product_meta) \<Rightarrow> string \<Rightarrow> product_meta" where
  "meta_get meta pname = (case meta pname of None \<Rightarrow> empty_meta | Some m \<Rightarrow> m)"

text \<open>
  The two functions that \<^verbatim>\<open>upgrader.py\<close> imports from \<^verbatim>\<open>ateema.pricing\<close> and calls
  at every price point. The allocator takes them as a parameter, so what is proved of it
  holds whatever they compute.
\<close>

record pricing =
  get_effective_unit_price ::
    "string \<Rightarrow> string \<Rightarrow> rat \<Rightarrow> product_meta \<Rightarrow> date option \<Rightarrow> bool \<Rightarrow> rat"
  effective_line_price :: "product_record \<Rightarrow> string \<Rightarrow> rat \<Rightarrow> rat"

text \<open>
  A pick is (option name, tier label, effective unit price); a candidate adds its line
  price. \<^verbatim>\<open>Selection(picks=..., subtotal=...)\<close> is the record \<open>selection\<close>, its fields
  prefixed to leave \<open>picks\<close> and \<open>subtotal\<close> to the local variables of the allocator.
\<close>

type_synonym pick = "string \<times> string \<times> rat"
type_synonym candidate = "string \<times> string \<times> rat \<times> rat"

record selection =
  sel_picks :: "(string \<times> pick) list"
  sel_subtotal :: rat

datatype error = KeyError string

subsection \<open>Enumerating the eligible price points of a product\<close>

text \<open>\<^verbatim>\<open>opt.get("name", pname)\<close>\<close>

definition opt_get_name :: "price_option \<Rightarrow> string \<Rightarrow> string" where
  "opt_get_name opt pname = (case name opt of None \<Rightarrow> pname | Some n \<Rightarrow> n)"

text \<open>The Summit Booth filter: true when the option is skipped (\<^verbatim>\<open>continue\<close>).\<close>

definition summit_booth_skip :: "string \<Rightarrow> string \<Rightarrow> bool \<Rightarrow> bool" where
  "summit_booth_skip pname opt_name is_advertiser =
     (if str_in ''summit'' (lower pname) \<and> str_in ''booth'' (lower pname) then
        let low = lower opt_name;
            has_non = (str_in ''non-advertiser'' low \<or> str_in ''non advertiser'' low);
            has_adv = (str_in ''advertiser'' low \<and> \<not> has_non)
        in (is_advertiser \<and> has_non) \<or> (\<not> is_advertiser \<and> has_adv)
      else False)"

text \<open>
  The line price of a point: the Final copy asks \<^verbatim>\<open>map_line_price\<close> first and falls back
  to \<^verbatim>\<open>effective_line_price\<close>; the CloudVersion copy calls \<^verbatim>\<open>effective_line_price\<close>
  directly.
\<close>

definition line_price ::
  "variant \<Rightarrow> pricing \<Rightarrow> string \<Rightarrow> product_record \<Rightarrow> string \<Rightarrow> rat \<Rightarrow> int option \<Rightarrow> rat" where
  "line_price v P pname product lbl eff_base interactive_map_quarters =
     (case v of
        CloudVersion \<Rightarrow> effective_line_price P product lbl eff_base
      | CloudVersion_Final \<Rightarrow>
          (case map_line_price pname lbl eff_base interactive_map_quarters of
             Some map_price \<Rightarrow> map_price
           | None \<Rightarrow> effective_line_price P product lbl eff_base))"

text \<open>
  Both loops of \<^verbatim>\<open>greedy_fill_to_cap\<close> walk the options and their price points with the
  same filters and compute the same \<^verbatim>\<open>eff_base\<close> and line price. \<open>candidates\<close> is that
  walk, in the order of the source.
\<close>

definition option_candidates ::
  "variant \<Rightarrow> pricing \<Rightarrow> string \<Rightarrow> product_record \<Rightarrow> (string \<rightharpoonup> product_meta) \<Rightarrow> date option
     \<Rightarrow> bool \<Rightarrow> int option \<Rightarrow> price_option \<Rightarrow> candidate list" where
  "option_candidates v P pname product meta chosen_date is_advertiser quarters opt =
     (let opt_name = opt_get_name opt pname in
      if summit_booth_skip pname opt_name is_advertiser then []
      else
        map (\<lambda>(lbl, base_price).
               let eff_base = get_effective_unit_price P pname opt_name base_price
                                (meta_get meta pname) chosen_date is_advertiser
               in (opt_name, lbl, eff_base, line_price v P pname product lbl eff_base quarters))
            (filter (\<lambda>(lbl, base_price). \<not> is_restricted_tier v lbl is_advertiser)
                    (price_points opt)))"

definition candidates ::
  "variant \<Rightarrow> pricing \<Rightarrow> string \<Rightarrow> product_record \<Rightarrow> (string \<rightharpoonup> product_meta) \<Rightarrow> date option
     \<Rightarrow> bool \<Rightarrow> int option \<Rightarrow> candidate list" where
  "candidates v P pname product meta chosen_date is_advertiser quarters =
     concat (map (option_candidates v P pname product meta chosen_date is_advertiser quarters)
                 (price_options product))"

definition cand_line :: "candidate \<Rightarrow> rat" where
  "cand_line c = (case c of (opt_name, lbl, eff_base, line) \<Rightarrow> line)"

definition cand_pick :: "candidate \<Rightarrow> pick" where
  "cand_pick c = (case c of (opt_name, lbl, eff_base, line) \<Rightarrow> (opt_name, lbl, eff_base))"

subsection \<open>Phase 1: baseline picks\<close>

definition is_map :: "variant \<Rightarrow> string \<Rightarrow> bool" where
  "is_map v pname = (v = CloudVersion_Final \<and> pname = ''Chicago Does Interactive Map'')"

text \<open>
  One turn of the inner loop on \<open>best\<close> and \<open>best_line\<close> (kept together, \<open>None\<close> for
  \<^verbatim>\<open>best is None\<close>).
\<close>

definition baseline_step ::
  "variant \<Rightarrow> rat \<Rightarrow> string \<Rightarrow> (pick \<times> rat) option \<Rightarrow> candidate \<Rightarrow> (pick \<times> rat) option" where
  "baseline_step v budget pname best c =
     (let line = cand_line c in
      if is_map v pname then
        (if line \<le> budget \<and> (case best of None \<Rightarrow> True | Some (b, best_line) \<Rightarrow> line > best_line)
         then Some (cand_pick c, line) else best)
      else
        (if (case best of None \<Rightarrow> True | Some (b, best_line) \<Rightarrow> line < best_line)
         then Some (cand_pick c, line) else best))"

definition baseline_best ::
  "variant \<Rightarrow> rat \<Rightarrow> string \<Rightarrow> candidate list \<Rightarrow> (pick \<times> rat) option" where
  "baseline_best v budget pname cs = foldl (baseline_step v budget pname) None cs"

text \<open>
  The body of the outer loop for one product: \<^verbatim>\<open>if best:\<close> adds the line price of the
  pick, computed again, to the subtotal and stores the pick. The keys of a dictionary are
  distinct, so the new key goes to the end of \<open>picks\<close>.
\<close>

definition baseline_product ::
  "variant \<Rightarrow> pricing \<Rightarrow> rat \<Rightarrow> (string \<rightharpoonup> product_meta) \<Rightarrow> date option \<Rightarrow> bool \<Rightarrow> int option
     \<Rightarrow> (string \<times> pick) list \<times> rat \<Rightarrow> string \<times> product_record \<Rightarrow> (string \<times> pick) list \<times> rat" where
  "baseline_product v P budget meta chosen_date is_advertiser quarters st kv =
     (case st of (picks, subtotal) \<Rightarrow>
      case kv of (pname, product) \<Rightarrow>
        (case baseline_best v budget pname
                (candidates v P pname product meta chosen_date is_advertiser quarters) of
           None \<Rightarrow> (picks, subtotal)
         | Some ((opt_name, lbl, eff_base), best_line) \<Rightarrow>
             (picks @ [(pname, (opt_name, lbl, eff_base))],
              subtotal + line_price v P pname product lbl eff_base quarters)))"

definition baseline ::
  "variant \<Rightarrow> pricing \<Rightarrow> rat \<Rightarrow> (string \<times> product_record) list \<Rightarrow> (string \<rightharpoonup> product_meta)
     \<Rightarrow> date option \<Rightarrow> bool \<Rightarrow> int option \<Rightarrow> (string \<times> pick) list \<times> rat" where
  "baseline v P budget products meta chosen_date is_advertiser quarters =
     foldl (baseline_product v P budget meta chosen_date is_advertiser quarters) ([], 0) products"

subsection \<open>Phase 2: the upgrade loop\<close>

text \<open>
  The upgrade candidates of a picked product: the eligible points dearer than the current
  line, sorted by line price. \<^verbatim>\<open>list.sort\<close> is stable, and so is \<open>sort_key\<close>.
\<close>

definition upgrades ::
  "variant \<Rightarrow> pricing \<Rightarrow> string \<Rightarrow> product_record \<Rightarrow> (string \<rightharpoonup> product_meta) \<Rightarrow> date option
     \<Rightarrow> bool \<Rightarrow> int option \<Rightarrow> rat \<Rightarrow> candidate list" where
  "upgrades v P pname product meta chosen_date is_advertiser quarters cur_line =
     sort_key cand_line
       (filter (\<lambda>c. cand_line c > cur_line)
          (candidates v P pname product meta chosen_date is_advertiser quarters))"

text \<open>The walk over the sorted upgrades, up to its \<^verbatim>\<open>break\<close>.\<close>

definition first_fit :: "rat \<Rightarrow> rat \<Rightarrow> rat \<Rightarrow> candidate list \<Rightarrow> candidate option" where
  "first_fit budget subtotal cur_line us =
     find (\<lambda>c. subtotal - cur_line + cand_line c \<le> budget) us"

text \<open>
  One pass of the \<^verbatim>\<open>for\<close> loop over \<^verbatim>\<open>list(picks.items())\<close>. The loop assigns only
  \<^verbatim>\<open>picks[pname]\<close> for the key it is at, and the keys of a dictionary are distinct, so the
  entries after it in the snapshot still are the live ones: the pass rebuilds the
  dictionary entry by entry, in its order. \<^verbatim>\<open>products[pname]\<close> raises \<^verbatim>\<open>KeyError\<close> for
  a key that is missing. The result is the new \<open>picks\<close>, the new \<open>subtotal\<close> and
  \<open>improved\<close>.
\<close>

fun upgrade_pass ::
  "variant \<Rightarrow> pricing \<Rightarrow> rat \<Rightarrow> (string \<times> product_record) list \<Rightarrow> (string \<rightharpoonup> product_meta)
     \<Rightarrow> date option \<Rightarrow> bool \<Rightarrow> int option \<Rightarrow> (string \<times> pick) list \<Rightarrow> rat
     \<Rightarrow> error + ((string \<times> pick) list \<times> rat \<times> bool)" where
  "upgrade_pass v P budget products meta chosen_date is_advertiser quarters [] subtotal =
     Inr ([], subtotal, False)"
| "upgrade_pass v P budget products meta chosen_date is_advertiser quarters
     ((pname, (cur_opt, cur_lbl, cur_base)) # rest) subtotal =
     (case map_of products pname of
        None \<Rightarrow> Inl (KeyError pname)
      | Some product \<Rightarrow>
          (let cur_line = line_price v P pname product cur_lbl cur_base quarters in
           case first_fit budget subtotal cur_line
                  (upgrades v P pname product meta chosen_date is_advertiser quarters cur_line) of
             None \<Rightarrow>
               (case upgrade_pass v P budget products meta chosen_date is_advertiser quarters
                       rest subtotal of
                  Inl e \<Rightarrow> Inl e
                | Inr (picks, subtotal', improved) \<Rightarrow>
                    Inr ((pname, (cur_opt, cur_lbl, cur_base)) # picks, subtotal', improved))
           | Some (opt_name, lbl, eff_base, new_line) \<Rightarrow>
               (case upgrade_pass v P budget products meta chosen_date is_advertiser quarters
                       rest (subtotal - cur_line + new_line) of
                  Inl e \<Rightarrow> Inl e
                | Inr (picks, subtotal', improved) \<Rightarrow>
                    Inr ((pname, (opt_name, lbl, eff_base)) # picks, subtotal', True))))"

text \<open>
  The number of upgrade candidates that the picks still have: it drops with every upgrade,
  which is why the \<^verbatim>\<open>while\<close> loop ends.
\<close>

definition upgrade_count ::
  "variant \<Rightarrow> pricing \<Rightarrow> (string \<times> product_record) list \<Rightarrow> (string \<rightharpoonup> product_meta)
     \<Rightarrow> date option \<Rightarrow> bool \<Rightarrow> int option \<Rightarrow> string \<times> pick \<Rightarrow> nat" where
  "upgrade_count v P products meta chosen_date is_advertiser quarters kv =
     (case kv of (pname, (cur_opt, cur_lbl, cur_base)) \<Rightarrow>
        (case map_of products pname of
           None \<Rightarrow> 0
         | Some product \<Rightarrow>
             length (upgrades v P pname product meta chosen_date is_advertiser quarters
                       (line_price v P pname product cur_lbl cur_base quarters))))"

definition potential ::
  "variant \<Rightarrow> pricing \<Rightarrow> (string \<times> product_record) list \<Rightarrow> (string \<rightharpoonup> product_meta)
     \<Rightarrow> date option \<Rightarrow> bool \<Rightarrow> int option \<Rightarrow> (string \<times> pick) list \<Rightarrow> nat" where
  "potential v P products meta chosen_date is_advertiser quarters picks =
     sum_list (map (upgrade_count v P products meta chosen_date is_advertiser quarters) picks)"

text \<open>
  \<^verbatim>\<open>improved = True; while improved: improved = False; for ...\<close>: a pass, and another
  one as long as the last one improved.
\<close>

function upgrade_loop ::
  "variant \<Rightarrow> pricing \<Rightarrow> rat \<Rightarrow> (string \<times> product_record) list \<Rightarrow> (string \<rightharpoonup> product_meta)
     \<Rightarrow> date option \<Rightarrow> bool \<Rightarrow> int option \<Rightarrow> (string \<times> pick) list \<Rightarrow> rat
     \<Rightarrow> error + ((string \<times> pick) list \<times> rat)" where
  "upgrade_loop v P budget products meta chosen_date is_advertiser quarters picks subtotal =
     (case upgrade_pass v P budget products meta chosen_date is_advertiser quarters
             picks subtotal of
        Inl e \<Rightarrow> Inl e
      | Inr (picks', subtotal', improved) \<Rightarrow>
          if improved
          then upgrade_loop v P budget products meta chosen_date is_advertiser quarters
                 picks' subtotal'
          else Inr (picks', subtotal'))"
  by pat_completeness auto

subsection \<open>The allocator\<close>

text \<open>
  \<^verbatim>\<open>round(x, 2)\<close>: to the nearest hundredth, a tie going to the even one.
\<close>

definition round_half_even :: "rat \<Rightarrow> int" where
  "round_half_even y =
     (let f = \<lfloor>y\<rfloor>; d = y - of_int f in
      if d < 1 / 2 then f
      else if 1 / 2 < d then f + 1
      else if even f then f else f + 1)"

definition round2 :: "rat \<Rightarrow> rat" where
  "round2 x = of_int (round_half_even (x * 100)) / 100"

text \<open>
  The allocator up to its \<^verbatim>\<open>return\<close>: the picks, the subtotal before it is rounded, and
  \<open>forced_overage\<close>.
\<close>

definition greedy_unrounded ::
  "variant \<Rightarrow> pricing \<Rightarrow> rat \<Rightarrow> (string \<times> product_record) list \<Rightarrow> (string \<rightharpoonup> product_meta)
     \<Rightarrow> date option \<Rightarrow> bool \<Rightarrow> int option \<Rightarrow> error + ((string \<times> pick) list \<times> rat \<times> bool)" where
  "greedy_unrounded v P budget products meta chosen_date is_advertiser quarters =
     (case baseline v P budget products meta chosen_date is_advertiser quarters of
        (picks, subtotal) \<Rightarrow>
          let forced_overage = (subtotal > budget) in
          if \<not> forced_overage then
            (case upgrade_loop v P budget products meta chosen_date is_advertiser quarters
                    picks subtotal of
               Inl e \<Rightarrow> Inl e
             | Inr (picks', subtotal') \<Rightarrow> Inr (picks', subtotal', forced_overage))
          else Inr (picks, subtotal, forced_overage))"

definition greedy_fill_to_cap ::
  "variant \<Rightarrow> pricing \<Rightarrow> rat \<Rightarrow> (string \<times> product_record) list \<Rightarrow> (string \<rightharpoonup> product_meta)
     \<Rightarrow> date option \<Rightarrow> bool \<Rightarrow> int option \<Rightarrow> error + (selection \<times> bool)" where
  "greedy_fill_to_cap v P budget products meta chosen_date is_advertiser interactive_map_quarters =
     (case greedy_unrounded v P budget products meta chosen_date is_advertiser
             interactive_map_quarters of
        Inl e \<Rightarrow> Inl e
      | Inr (picks, subtotal, forced_overage) \<Rightarrow>
          Inr (\<lparr>sel_picks = picks, sel_subtotal = round2 subtotal\<rparr>, forced_overage))"

subsection \<open>Double-precision arithmetic\<close>

text \<open>
  A Python float is an IEEE 754 double, and \<^verbatim>\<open>*\<close>, \<^verbatim>\<open>/\<close> and \<^verbatim>\<open>+\<close> on floats give
  the double nearest to the exact result, a tie going to the even significand.
  \<open>to_double\<close> is that rounding on the rationals: for \<open>2\<^sup>k \<le> \<bar>x\<bar> < 2\<^sup>k\<^sup>+\<^sup>1\<close> the doubles
  around \<open>x\<close> are the multiples of \<open>2\<^sup>k\<^sup>-\<^sup>5\<^sup>2\<close>. The range of the exponent is not modelled:
  the values are taken to be neither so large as to overflow nor so small as to be
  subnormal, as budgets and percentages are.

  \<open>bit_length n\<close> is Python's \<^verbatim>\<open>n.bit_length()\<close>, and \<open>floor_log2 x\<close> the \<open>k\<close> above,
  for \<open>x > 0\<close>.
\<close>

fun bit_length :: "nat \<Rightarrow> nat" where
  "bit_length n = (if n = 0 then 0 else Suc (bit_length (n div 2)))"

declare bit_length.simps [simp del]

definition floor_log2 :: "rat \<Rightarrow> int" where
  "floor_log2 x =
     (if 1 \<le> x then int (bit_length (nat \<lfloor>x\<rfloor>)) - 1
      else - int (bit_length (nat (\<lceil>1 / x\<rceil> - 1))))"

definition pow2 :: "int \<Rightarrow> rat" where
  "pow2 e = (if 0 \<le> e then 2 ^ nat e else 1 / 2 ^ nat (- e))"

definition to_double :: "rat \<Rightarrow> rat" where
  "to_double x =
     (if x = 0 then 0
      else
        let ulp = pow2 (floor_log2 \<bar>x\<bar> - 52)
        in of_int (round_half_even (x / ulp)) * ulp)"

text \<open>The three operations of \<^verbatim>\<open>run_fill_to_cap\<close> on floats.\<close>

definition float_div :: "rat \<Rightarrow> rat \<Rightarrow> rat" where
  "float_div x y = to_double (x / y)"

definition float_mul :: "rat \<Rightarrow> rat \<Rightarrow> rat" where
  "float_mul x y = to_double (x * y)"

definition float_add :: "rat \<Rightarrow> rat \<Rightarrow> rat" where
  "float_add x y = to_double (x + y)"

subsection \<open>The two pools\<close>

definition warning_text :: "variant \<Rightarrow> string" where
  "warning_text v =
     (case v of
        CloudVersion \<Rightarrow>
          ''Heads up: Even with the most cost-effective options selected, the current budget distribution cannot support this product mix. ''
          @ ''To proceed with these items, please consider adjusting the budget distribution % or increasing the overall investment.''
      | CloudVersion_Final \<Rightarrow>
          ''Heads up: Even with the most cost-effective options selected, ''
          @ ''the current budget distribution cannot support this product mix.'')"

text \<open>
  \<^verbatim>\<open>t_budget = total_budget * (tourist_pct / 100.0)\<close>, in floats: the quotient is rounded
  to a double, then the product. The subtotal of a selection is a number of hundredths in
  the model and the double nearest to it in the program, so the sum for the grand total is
  the float sum of the two doubles; \<^verbatim>\<open>round(..., 2)\<close> brings it back to hundredths.
\<close>

definition run_fill_to_cap ::
  "variant \<Rightarrow> pricing \<Rightarrow> rat \<Rightarrow> rat \<Rightarrow> rat \<Rightarrow> (string \<times> product_record) list
     \<Rightarrow> (string \<times> product_record) list \<Rightarrow> (string \<rightharpoonup> product_meta) \<Rightarrow> date option \<Rightarrow> bool
     \<Rightarrow> int option \<Rightarrow> error + (selection \<times> selection \<times> rat \<times> string option)" where
  "run_fill_to_cap v P total_budget tourist_pct industry_pct t_set i_set meta chosen_date
     is_advertiser interactive_map_quarters =
     (let t_budget = float_mul total_budget (float_div tourist_pct 100);
          i_budget = float_mul total_budget (float_div industry_pct 100)
      in
      case greedy_fill_to_cap v P t_budget t_set meta chosen_date is_advertiser
             interactive_map_quarters of
        Inl e \<Rightarrow> Inl e
      | Inr (t_sel, t_warn) \<Rightarrow>
          (case greedy_fill_to_cap v P i_budget i_set meta chosen_date is_advertiser
                  interactive_map_quarters of
             Inl e \<Rightarrow> Inl e
           | Inr (i_sel, i_warn) \<Rightarrow>
               let grand_total =
                     round2 (float_add (to_double (sel_subtotal t_sel))
                                       (to_double (sel_subtotal i_sel)));
                   warning_msg = (if t_warn \<or> i_warn then Some (warning_text v) else None)
               in Inr (t_sel, i_sel, grand_total, warning_msg)))"

subsection \<open>The pricing functions, as the spec describes them\<close>

text \<open>
  Modelled from the spec: \<^verbatim>\<open>effective_line_price\<close> of \<^verbatim>\<open>ateema.pricing\<close>, which is not
  among the source files. It "derives a quantity from the tier label pattern
  \<^verbatim>\<open><integer>x\<close> (case-insensitive), defaulting to quantity 1 when the tier label does not
  match that pattern, and multiplies unit_price by that quantity".
\<close>

definition digit_value :: "char \<Rightarrow> nat option" where
  "digit_value c = map_of (zip ''0123456789'' [0, 1, 2, 3, 4, 5, 6, 7, 8, 9]) c"

definition tier_quantity :: "string \<Rightarrow> nat" where
  "tier_quantity lbl =
     (case rev lbl of
        [] \<Rightarrow> 1
      | x # ds \<Rightarrow>
          if lower_char x = CHR ''x'' \<and> ds \<noteq> [] then
            (case those (map digit_value (rev ds)) of
               None \<Rightarrow> 1
             | Some ns \<Rightarrow> foldl (\<lambda>a n. 10 * a + n) 0 ns)
          else 1)"

definition spec_effective_line_price :: "product_record \<Rightarrow> string \<Rightarrow> rat \<Rightarrow> rat" where
  "spec_effective_line_price product lbl unit_price = unit_price * of_nat (tier_quantity lbl)"

text \<open>
  Modelled from the spec: \<^verbatim>\<open>get_effective_unit_price\<close> of \<^verbatim>\<open>ateema.pricing\<close>, which is
  not among the source files. It "applies, in order: (1) a seasonal override if
  reference_date falls within a configured window for that product/option, replacing
  base_price; (2) an advertiser-specific override price if is_advertiser is true and one is
  configured for that product/option, replacing the (possibly seasonal) price"; with no
  metadata and no date it yields the base price.
\<close>

definition spec_get_effective_unit_price ::
  "string \<Rightarrow> string \<Rightarrow> rat \<Rightarrow> product_meta \<Rightarrow> date option \<Rightarrow> bool \<Rightarrow> rat" where
  "spec_get_effective_unit_price pname opt_name base_price m chosen_date is_advertiser =
     (let seasonal_price =
            (case chosen_date of
               None \<Rightarrow> base_price
             | Some day \<Rightarrow>
                 (case find (\<lambda>(opt, first_day, last_day, price).
                               opt = opt_name \<and> first_day \<le> day \<and> day \<le> last_day)
                        (seasonal m) of
                    None \<Rightarrow> base_price
                  | Some (opt, first_day, last_day, price) \<Rightarrow> price))
      in if is_advertiser then
           (case map_of (advertiser_price m) opt_name of
              None \<Rightarrow> seasonal_price
            | Some price \<Rightarrow> price)
         else seasonal_price)"

definition spec_pricing :: pricing where
  "spec_pricing =
     \<lparr>get_effective_unit_price = spec_get_effective_unit_price,
      effective_line_price = spec_effective_line_price\<rparr>"

subsection \<open>Auxiliary notions\<close>

text \<open>
  What the body of the baseline loop adds for one product: the entry of \<open>picks\<close> (none
  when no point is chosen) and the amount added to \<open>subtotal\<close>.
\<close>

definition baseline_entry ::
  "variant \<Rightarrow> pricing \<Rightarrow> rat \<Rightarrow> (string \<rightharpoonup> product_meta) \<Rightarrow> date option \<Rightarrow> bool \<Rightarrow> int option
     \<Rightarrow> string \<times> product_record \<Rightarrow> (string \<times> pick) list" where
  "baseline_entry v P budget meta chosen_date is_advertiser quarters kv =
     (case kv of (pname, product) \<Rightarrow>
        (case baseline_best v budget pname
                (candidates v P pname product meta chosen_date is_advertiser quarters) of
           None \<Rightarrow> []
         | Some (b, best_line) \<Rightarrow> [(pname, b)]))"

definition baseline_cost ::
  "variant \<Rightarrow> pricing \<Rightarrow> rat \<Rightarrow> (string \<rightharpoonup> product_meta) \<Rightarrow> date option \<Rightarrow> bool \<Rightarrow> int option
     \<Rightarrow> string \<times> product_record \<Rightarrow> rat" where
  "baseline_cost v P budget meta chosen_date is_advertiser quarters kv =
     (case kv of (pname, product) \<Rightarrow>
        (case baseline_best v budget pname
                (candidates v P pname product meta chosen_date is_advertiser quarters) of
           None \<Rightarrow> 0
         | Some ((opt_name, lbl, eff_base), best_line) \<Rightarrow>
             line_price v P pname product lbl eff_base quarters))"

text \<open>
  The state after \<open>n\<close> passes of the upgrade loop that each improved; \<open>None\<close> when one
  of them did not improve or raised.
\<close>

fun improving_passes ::
  "nat \<Rightarrow> variant \<Rightarrow> pricing \<Rightarrow> rat \<Rightarrow> (string \<times> product_record) list
     \<Rightarrow> (string \<rightharpoonup> product_meta) \<Rightarrow> date option \<Rightarrow> bool \<Rightarrow> int option
     \<Rightarrow> (string \<times> pick) list \<Rightarrow> rat \<Rightarrow> ((string \<times> pick) list \<times> rat) option" where
  "improving_passes 0 v P budget products meta chosen_date is_advertiser quarters picks subtotal =
     Some (picks, subtotal)"
| "improving_passes (Suc n) v P budget products meta chosen_date is_advertiser quarters
     picks subtotal =
     (case upgrade_pass v P budget products meta chosen_date is_advertiser quarters
             picks subtotal of
        Inl e \<Rightarrow> None
      | Inr (picks', subtotal', improved) \<Rightarrow>
          if improved
          then improving_passes n v P budget products meta chosen_date is_advertiser quarters
                 picks' subtotal'
          else None)"

subsection \<open>The scenarios of the spec\<close>

text \<open>
  The product set of the "Banner Ad" scenario: one product, one option without a name of
  its own, two price points.
\<close>

definition banner_ad :: "(string \<times> product_record) list" where
  "banner_ad =
     [(''Banner Ad'',
       \<lparr>price_options = [\<lparr>name = None, price_points = [(''1x'', 100), (''4x'', 350)]\<rparr>]\<rparr>)]"

text \<open>
  A product set with the Interactive Map: a listing with one price point and the map with
  two.
\<close>

definition interactive_map_set :: "(string \<times> product_record) list" where
  "interactive_map_set =
     [(''Listing'',
       \<lparr>price_options = [\<lparr>name = None, price_points = [(''Standard'', 10)]\<rparr>]\<rparr>),
      (''Chicago Does Interactive Map'',
       \<lparr>price_options =
          [\<lparr>name = None, price_points = [(''Basic'', 50), (''Premium'', 100)]\<rparr>]\<rparr>)]"

text \<open>A product set with one listing, at 29.\<close>

definition listing_29 :: "(string \<times> product_record) list" where
  "listing_29 =
     [(''Listing'',
       \<lparr>price_options = [\<lparr>name = None, price_points = [(''Standard'', 29)]\<rparr>]\<rparr>)]"

section \<open>Properties\<close>

subsection \<open>One pass of the upgrade loop\<close>

text \<open>The line price stored with a candidate is the one recomputed from its pick.\<close>

lemma cand_line_consistent:
  "(opt_name, lbl, eff_base, new_line) \<in> set (candidates v P pname product meta d adv q)
   \<Longrightarrow> new_line = line_price v P pname product lbl eff_base q"
  by (auto simp: candidates_def option_candidates_def Let_def split: if_splits)

lemma first_fit_Some:
  "first_fit budget subtotal cur_line us = Some c
   \<Longrightarrow> c \<in> set us \<and> subtotal - cur_line + cand_line c \<le> budget"
  unfolding first_fit_def by (auto simp: find_Some_iff)

lemma upgrades_length_less:
  assumes "c \<in> set (upgrades v P pname product meta d adv q cur_line)"
  shows "length (upgrades v P pname product meta d adv q (cand_line c))
         < length (upgrades v P pname product meta d adv q cur_line)"
proof -
  let ?cs = "candidates v P pname product meta d adv q"
  let ?old = "filter (\<lambda>x. cur_line < cand_line x) ?cs"
  from assms have c: "c \<in> set ?old" by (simp add: upgrades_def)
  then have lt: "cur_line < cand_line c" by simp
  have "filter (\<lambda>x. cand_line c < cand_line x) ?cs
        = filter (\<lambda>x. cand_line c < cand_line x) ?old"
    using lt by (auto intro!: filter_cong)
  moreover have "length (filter (\<lambda>x. cand_line c < cand_line x) ?old) < length ?old"
    using c by (intro length_filter_less[of c]) auto
  ultimately show ?thesis by (simp add: upgrades_def)
qed

lemma upgrade_in_upgrades:
  assumes "c \<in> set (upgrades v P pname product meta d adv q cur_line)"
  shows "cur_line < cand_line c"
    and "c \<in> set (candidates v P pname product meta d adv q)"
  using assms by (simp_all add: upgrades_def)

text \<open>What one fitting upgrade does to one entry.\<close>

lemma fit_step:
  assumes "map_of products pname = Some product"
    and "first_fit budget subtotal (line_price v P pname product cur_lbl cur_base q)
           (upgrades v P pname product meta d adv q
              (line_price v P pname product cur_lbl cur_base q))
         = Some (opt_name, lbl, eff_base, new_line)"
  shows "upgrade_count v P products meta d adv q (pname, (opt_name, lbl, eff_base))
         < upgrade_count v P products meta d adv q (pname, (cur_opt, cur_lbl, cur_base))"
    and "line_price v P pname product cur_lbl cur_base q < new_line"
    and "subtotal - line_price v P pname product cur_lbl cur_base q + new_line \<le> budget"
    and "new_line = line_price v P pname product lbl eff_base q"
proof -
  let ?cur = "line_price v P pname product cur_lbl cur_base q"
  let ?c = "(opt_name, lbl, eff_base, new_line)"
  from first_fit_Some[OF assms(2)]
  have mem: "?c \<in> set (upgrades v P pname product meta d adv q ?cur)"
    and fit: "subtotal - ?cur + cand_line ?c \<le> budget" by simp_all
  have cl: "cand_line ?c = new_line" by (simp add: cand_line_def)
  from upgrade_in_upgrades[OF mem] cl
  show lt: "?cur < new_line" by simp
  from fit cl show "subtotal - ?cur + new_line \<le> budget" by simp
  from upgrade_in_upgrades(2)[OF mem]
  show eq: "new_line = line_price v P pname product lbl eff_base q"
    by (rule cand_line_consistent)
  from upgrades_length_less[OF mem] cl eq assms(1)
  show "upgrade_count v P products meta d adv q (pname, (opt_name, lbl, eff_base))
         < upgrade_count v P products meta d adv q (pname, (cur_opt, cur_lbl, cur_base))"
    by (simp add: upgrade_count_def)
qed

lemma pass_potential:
  "upgrade_pass v P budget products meta d adv q picks subtotal = Inr (picks', subtotal', improved)
   \<Longrightarrow> potential v P products meta d adv q picks' \<le> potential v P products meta d adv q picks
       \<and> (improved \<longrightarrow> potential v P products meta d adv q picks'
                          < potential v P products meta d adv q picks)"
proof (induction picks arbitrary: subtotal picks' subtotal' improved)
  case Nil
  then show ?case by (simp add: potential_def)
next
  case (Cons kv rest)
  obtain pname cur_opt cur_lbl cur_base where kv: "kv = (pname, (cur_opt, cur_lbl, cur_base))"
    by (cases kv) auto
  from Cons.prems kv obtain product where prod: "map_of products pname = Some product"
    by (auto split: option.splits)
  let ?cur = "line_price v P pname product cur_lbl cur_base q"
  show ?case
  proof (cases "first_fit budget subtotal ?cur (upgrades v P pname product meta d adv q ?cur)")
    case None
    with Cons.prems kv prod obtain ps where
      rec: "upgrade_pass v P budget products meta d adv q rest subtotal = Inr (ps, subtotal', improved)"
      and p': "picks' = kv # ps"
      by (auto simp: Let_def split: sum.splits)
    from Cons.IH[OF rec] p' show ?thesis by (simp add: potential_def)
  next
    case (Some c)
    obtain opt_name lbl eff_base new_line where c: "c = (opt_name, lbl, eff_base, new_line)"
      by (cases c) auto
    with Some Cons.prems kv prod obtain ps imp where
      rec: "upgrade_pass v P budget products meta d adv q rest (subtotal - ?cur + new_line)
            = Inr (ps, subtotal', imp)"
      and p': "picks' = (pname, (opt_name, lbl, eff_base)) # ps"
      by (auto simp: Let_def split: sum.splits)
    from fit_step(1)[OF prod Some[unfolded c]]
    have "upgrade_count v P products meta d adv q (pname, (opt_name, lbl, eff_base))
         < upgrade_count v P products meta d adv q kv" by (simp add: kv)
    with Cons.IH[OF rec] p' show ?thesis by (simp add: potential_def)
  qed
qed


text \<open>The two ways a pass gets past an entry: it keeps the pick, or it upgrades it.\<close>

lemma upgrade_pass_ConsE:
  assumes "upgrade_pass v P budget products meta d adv q
             ((pname, (cur_opt, cur_lbl, cur_base)) # rest) subtotal
           = Inr (picks', subtotal', improved)"
  obtains (keep) product ps where
      "map_of products pname = Some product"
      "first_fit budget subtotal (line_price v P pname product cur_lbl cur_base q)
         (upgrades v P pname product meta d adv q
            (line_price v P pname product cur_lbl cur_base q)) = None"
      "upgrade_pass v P budget products meta d adv q rest subtotal = Inr (ps, subtotal', improved)"
      "picks' = (pname, (cur_opt, cur_lbl, cur_base)) # ps"
  | (up) product opt_name lbl eff_base new_line ps imp where
      "map_of products pname = Some product"
      "first_fit budget subtotal (line_price v P pname product cur_lbl cur_base q)
         (upgrades v P pname product meta d adv q
            (line_price v P pname product cur_lbl cur_base q))
       = Some (opt_name, lbl, eff_base, new_line)"
      "upgrade_pass v P budget products meta d adv q rest
         (subtotal - line_price v P pname product cur_lbl cur_base q + new_line)
       = Inr (ps, subtotal', imp)"
      "picks' = (pname, (opt_name, lbl, eff_base)) # ps"
      "improved"
  using assms by (auto simp: Let_def split: option.splits sum.splits)

lemma pass_keys:
  "upgrade_pass v P budget products meta d adv q picks subtotal = Inr (picks', subtotal', improved)
   \<Longrightarrow> map fst picks' = map fst picks"
proof (induction picks arbitrary: subtotal picks' subtotal' improved)
  case Nil
  then show ?case by simp
next
  case (Cons kv rest)
  obtain pname cur_opt cur_lbl cur_base where kv: "kv = (pname, (cur_opt, cur_lbl, cur_base))"
    by (cases kv) auto
  from Cons.prems[unfolded kv] show ?case
    by (cases rule: upgrade_pass_ConsE) (auto simp: kv dest: Cons.IH)
qed

lemma pass_subtotal:
  "upgrade_pass v P budget products meta d adv q picks subtotal = Inr (picks', subtotal', improved)
   \<Longrightarrow> subtotal \<le> subtotal' \<and> (improved \<longrightarrow> subtotal < subtotal')"
proof (induction picks arbitrary: subtotal picks' subtotal' improved)
  case Nil
  then show ?case by simp
next
  case (Cons kv rest)
  obtain pname cur_opt cur_lbl cur_base where kv: "kv = (pname, (cur_opt, cur_lbl, cur_base))"
    by (cases kv) auto
  from Cons.prems[unfolded kv] show ?case
  proof (cases rule: upgrade_pass_ConsE)
    case (keep product ps)
    from Cons.IH[OF keep(3)] show ?thesis .
  next
    case (up product opt_name lbl eff_base new_line ps imp)
    from fit_step(2)[OF up(1,2)] Cons.IH[OF up(3)] show ?thesis by simp
  qed
qed

lemma pass_bound:
  "upgrade_pass v P budget products meta d adv q picks subtotal = Inr (picks', subtotal', improved)
   \<Longrightarrow> subtotal \<le> budget \<Longrightarrow> subtotal' \<le> budget"
proof (induction picks arbitrary: subtotal picks' subtotal' improved)
  case Nil
  then show ?case by simp
next
  case (Cons kv rest)
  obtain pname cur_opt cur_lbl cur_base where kv: "kv = (pname, (cur_opt, cur_lbl, cur_base))"
    by (cases kv) auto
  from Cons.prems(1)[unfolded kv] show ?case
  proof (cases rule: upgrade_pass_ConsE)
    case (keep product ps)
    from Cons.IH[OF keep(3) Cons.prems(2)] show ?thesis .
  next
    case (up product opt_name lbl eff_base new_line ps imp)
    from Cons.IH[OF up(3) fit_step(3)[OF up(1,2)]] show ?thesis .
  qed
qed

lemma pass_not_improved:
  "upgrade_pass v P budget products meta d adv q picks subtotal = Inr (picks', subtotal', False)
   \<Longrightarrow> picks' = picks \<and> subtotal' = subtotal"
proof (induction picks arbitrary: subtotal picks' subtotal')
  case Nil
  then show ?case by simp
next
  case (Cons kv rest)
  obtain pname cur_opt cur_lbl cur_base where kv: "kv = (pname, (cur_opt, cur_lbl, cur_base))"
    by (cases kv) auto
  from Cons.prems[unfolded kv] show ?case
    by (cases rule: upgrade_pass_ConsE) (auto simp: kv dest: Cons.IH)
qed

lemma pass_total:
  "fst ` set picks \<subseteq> fst ` set products
   \<Longrightarrow> \<exists>picks' subtotal' improved.
         upgrade_pass v P budget products meta d adv q picks subtotal
         = Inr (picks', subtotal', improved)"
proof (induction picks arbitrary: subtotal)
  case Nil
  then show ?case by auto
next
  case (Cons kv rest)
  obtain pname cur_opt cur_lbl cur_base where kv: "kv = (pname, (cur_opt, cur_lbl, cur_base))"
    by (cases kv) auto
  from Cons.prems kv have "pname \<in> fst ` set products" by auto
  then have "map_of products pname \<noteq> None" by (simp add: map_of_eq_None_iff)
  then obtain product where prod: "map_of products pname = Some product" by auto
  from Cons.prems have rest: "fst ` set rest \<subseteq> fst ` set products" by auto
  let ?cur = "line_price v P pname product cur_lbl cur_base q"
  show ?case
  proof (cases "first_fit budget subtotal ?cur (upgrades v P pname product meta d adv q ?cur)")
    case None
    from Cons.IH[OF rest, of subtotal] None prod show ?thesis
      by (auto simp: kv)
  next
    case (Some c)
    obtain opt_name lbl eff_base new_line where c: "c = (opt_name, lbl, eff_base, new_line)"
      by (cases c) auto
    from Cons.IH[OF rest, of "subtotal - ?cur + new_line"] Some prod show ?thesis
      by (auto simp: kv c)
  qed
qed

text \<open>An improving pass lowers the potential, so the \<^verbatim>\<open>while\<close> loop terminates.\<close>

termination upgrade_loop
  by (relation "measure (\<lambda>(v, P, budget, products, meta, d, adv, q, picks, subtotal).
                            potential v P products meta d adv q picks)")
     (auto dest: pass_potential)

subsection \<open>The upgrade loop\<close>

declare upgrade_loop.simps [simp del]

lemma upgrade_loop_InrE:
  assumes "upgrade_loop v P budget products meta d adv q picks subtotal = Inr (picks', subtotal')"
  obtains (stop) "upgrade_pass v P budget products meta d adv q picks subtotal
                  = Inr (picks', subtotal', False)"
  | (again) p1 s1 where
      "upgrade_pass v P budget products meta d adv q picks subtotal = Inr (p1, s1, True)"
      "upgrade_loop v P budget products meta d adv q p1 s1 = Inr (picks', subtotal')"
  using assms
  by (subst (asm) upgrade_loop.simps) (auto split: sum.splits if_splits)

lemma loop_keys:
  "upgrade_loop v P budget products meta d adv q picks subtotal = Inr (picks', subtotal')
   \<Longrightarrow> map fst picks' = map fst picks"
proof (induction v P budget products meta d adv q picks subtotal rule: upgrade_loop.induct)
  case (1 v P budget products meta d adv q picks subtotal)
  from "1.prems" show ?case
  proof (cases rule: upgrade_loop_InrE)
    case stop
    then show ?thesis by (rule pass_keys)
  next
    case (again p1 s1)
    from "1.IH"[OF again(1) refl refl _ again(2)] pass_keys[OF again(1)]
    show ?thesis by simp
  qed
qed

lemma loop_subtotal:
  "upgrade_loop v P budget products meta d adv q picks subtotal = Inr (picks', subtotal')
   \<Longrightarrow> subtotal \<le> subtotal'"
proof (induction v P budget products meta d adv q picks subtotal rule: upgrade_loop.induct)
  case (1 v P budget products meta d adv q picks subtotal)
  from "1.prems" show ?case
  proof (cases rule: upgrade_loop_InrE)
    case stop
    from pass_subtotal[OF this] show ?thesis by simp
  next
    case (again p1 s1)
    from "1.IH"[OF again(1) refl refl _ again(2)] pass_subtotal[OF again(1)]
    show ?thesis by simp
  qed
qed

lemma loop_bound:
  "upgrade_loop v P budget products meta d adv q picks subtotal = Inr (picks', subtotal')
   \<Longrightarrow> subtotal \<le> budget \<Longrightarrow> subtotal' \<le> budget"
proof (induction v P budget products meta d adv q picks subtotal rule: upgrade_loop.induct)
  case (1 v P budget products meta d adv q picks subtotal)
  from "1.prems"(1) show ?case
  proof (cases rule: upgrade_loop_InrE)
    case stop
    from pass_bound[OF this "1.prems"(2)] show ?thesis .
  next
    case (again p1 s1)
    from "1.IH"[OF again(1) refl refl _ again(2) pass_bound[OF again(1) "1.prems"(2)]]
    show ?thesis by simp
  qed
qed

lemma loop_total:
  "fst ` set picks \<subseteq> fst ` set products
   \<Longrightarrow> \<exists>picks' subtotal'.
         upgrade_loop v P budget products meta d adv q picks subtotal = Inr (picks', subtotal')"
proof (induction v P budget products meta d adv q picks subtotal rule: upgrade_loop.induct)
  case (1 v P budget products meta d adv q picks subtotal)
  from pass_total[OF "1.prems"] obtain p1 s1 imp where
    pass: "upgrade_pass v P budget products meta d adv q picks subtotal = Inr (p1, s1, imp)"
    by blast
  show ?case
  proof (cases imp)
    case False
    with pass show ?thesis by (subst upgrade_loop.simps) simp
  next
    case True
    from pass_keys[OF pass] "1.prems" have "fst ` set p1 \<subseteq> fst ` set products"
      by (metis set_map)
    from "1.IH"[OF pass refl refl True this] pass True show ?thesis
      by (subst upgrade_loop.simps) simp
  qed
qed


subsection \<open>The baseline\<close>

lemma baseline_product_eq:
  "baseline_product v P budget meta d adv q (picks, subtotal) kv
   = (picks @ baseline_entry v P budget meta d adv q kv,
      subtotal + baseline_cost v P budget meta d adv q kv)"
  by (simp add: baseline_product_def baseline_entry_def baseline_cost_def
           split: prod.splits option.splits)

lemma baseline_foldl:
  "foldl (baseline_product v P budget meta d adv q) (picks, subtotal) products
   = (picks @ concat (map (baseline_entry v P budget meta d adv q) products),
      subtotal + sum_list (map (baseline_cost v P budget meta d adv q) products))"
  by (induction products arbitrary: picks subtotal)
     (simp_all add: baseline_product_eq add.assoc)

lemma baseline_eq:
  "baseline v P budget products meta d adv q
   = (concat (map (baseline_entry v P budget meta d adv q) products),
      sum_list (map (baseline_cost v P budget meta d adv q) products))"
  by (simp add: baseline_def baseline_foldl)

lemma baseline_entry_key:
  "(k, b) \<in> set (baseline_entry v P budget meta d adv q kv) \<Longrightarrow> k = fst kv"
  by (auto simp: baseline_entry_def split: prod.splits option.splits)

lemma baseline_keys:
  "fst ` set (fst (baseline v P budget products meta d adv q)) \<subseteq> fst ` set products"
proof
  fix k
  assume "k \<in> fst ` set (fst (baseline v P budget products meta d adv q))"
  then obtain b kv where "kv \<in> set products"
    and "(k, b) \<in> set (baseline_entry v P budget meta d adv q kv)"
    by (auto simp: baseline_eq)
  with baseline_entry_key show "k \<in> fst ` set products" by fastforce
qed

subsection \<open>The allocator returns\<close>

lemma greedy_unrounded_total:
  "\<exists>picks subtotal forced_overage.
     greedy_unrounded v P budget products meta d adv q = Inr (picks, subtotal, forced_overage)"
proof -
  obtain picks subtotal where b: "baseline v P budget products meta d adv q = (picks, subtotal)"
    by (cases "baseline v P budget products meta d adv q") auto
  from baseline_keys[of v P budget products meta d adv q] b
  have "fst ` set picks \<subseteq> fst ` set products" by simp
  from loop_total[OF this, of v P budget meta d adv q subtotal] b
  show ?thesis by (auto simp: greedy_unrounded_def Let_def)
qed

lemma loop_passes:
  "fst ` set picks \<subseteq> fst ` set products
   \<Longrightarrow> \<exists>n picks' subtotal'.
         n \<le> potential v P products meta d adv q picks
         \<and> improving_passes n v P budget products meta d adv q picks subtotal
             = Some (picks', subtotal')
         \<and> upgrade_pass v P budget products meta d adv q picks' subtotal'
             = Inr (picks', subtotal', False)
         \<and> upgrade_loop v P budget products meta d adv q picks subtotal
             = Inr (picks', subtotal')"
proof (induction v P budget products meta d adv q picks subtotal rule: upgrade_loop.induct)
  case (1 v P budget products meta d adv q picks subtotal)
  from pass_total[OF "1.prems"] obtain p1 s1 imp where
    pass: "upgrade_pass v P budget products meta d adv q picks subtotal = Inr (p1, s1, imp)"
    by blast
  show ?case
  proof (cases imp)
    case False
    from pass False have "upgrade_pass v P budget products meta d adv q picks subtotal
                          = Inr (p1, s1, False)" by simp
    from pass_not_improved[OF this] have same: "p1 = picks" "s1 = subtotal"
      by simp_all
    have "improving_passes 0 v P budget products meta d adv q picks subtotal
          = Some (picks, subtotal)" by simp
    moreover have "upgrade_loop v P budget products meta d adv q picks subtotal
          = Inr (picks, subtotal)"
      using pass False same by (subst upgrade_loop.simps) simp
    ultimately show ?thesis using pass False same
      by (intro exI[of _ 0] exI[of _ picks] exI[of _ subtotal]) simp
  next
    case True
    from pass_keys[OF pass] "1.prems" have keys: "fst ` set p1 \<subseteq> fst ` set products"
      by (metis set_map)
    from "1.IH"[OF pass refl refl True keys] obtain n picks' subtotal' where
      n: "n \<le> potential v P products meta d adv q p1"
      and ip: "improving_passes n v P budget products meta d adv q p1 s1 = Some (picks', subtotal')"
      and stable: "upgrade_pass v P budget products meta d adv q picks' subtotal'
                = Inr (picks', subtotal', False)"
      and loop: "upgrade_loop v P budget products meta d adv q p1 s1 = Inr (picks', subtotal')"
      by blast
    from pass_potential[OF pass] True n
    have "Suc n \<le> potential v P products meta d adv q picks" by simp
    moreover have "improving_passes (Suc n) v P budget products meta d adv q picks subtotal
                   = Some (picks', subtotal')"
      using pass True ip by simp
    moreover have "upgrade_loop v P budget products meta d adv q picks subtotal
                   = Inr (picks', subtotal')"
      using pass True loop by (subst upgrade_loop.simps) simp
    ultimately show ?thesis using stable
      by (intro exI[of _ "Suc n"] exI[of _ picks'] exI[of _ subtotal']) simp
  qed
qed

subsection \<open>The "Banner Ad" scenario, evaluated\<close>

lemmas eval_defs = candidates_def option_candidates_def opt_get_name_def summit_booth_skip_def
  lower_def lower_char_def is_restricted_tier_def restricted_keywords_def spec_pricing_def
  spec_get_effective_unit_price_def meta_get_def empty_meta_def line_price_def
  map_line_price_def spec_effective_line_price_def tier_quantity_def digit_value_def
  baseline_def baseline_product_def baseline_best_def baseline_step_def is_map_def
  cand_line_def cand_pick_def upgrades_def first_fit_def greedy_unrounded_def
  greedy_fill_to_cap_def round2_def round_half_even_def Let_def

lemma banner_ad_baseline:
  "baseline v spec_pricing budget banner_ad Map.empty None True q
   = ([(''Banner Ad'', (''Banner Ad'', ''1x'', 100))], 100)"
  by (cases v) (simp_all add: banner_ad_def eval_defs)

lemma banner_ad_candidates:
  "candidates v spec_pricing ''Banner Ad'' (snd (hd banner_ad)) Map.empty None True q
   = [(''Banner Ad'', ''1x'', 100, 100), (''Banner Ad'', ''4x'', 350, 1400)]"
  by (cases v) (simp_all add: banner_ad_def eval_defs)

lemma banner_ad_400:
  "greedy_fill_to_cap CloudVersion_Final spec_pricing 400 banner_ad Map.empty None True None
   = Inr (\<lparr>sel_picks = [(''Banner Ad'', (''Banner Ad'', ''1x'', 100))], sel_subtotal = 100\<rparr>,
          False)"
  by (simp add: banner_ad_def eval_defs upgrade_loop.simps)

lemma banner_ad_1400:
  "greedy_fill_to_cap CloudVersion_Final spec_pricing 1400 banner_ad Map.empty None True None
   = Inr (\<lparr>sel_picks = [(''Banner Ad'', (''Banner Ad'', ''4x'', 350))], sel_subtotal = 1400\<rparr>,
          False)"
  by (simp add: banner_ad_def eval_defs upgrade_loop.simps)

lemma banner_ad_50:
  "greedy_fill_to_cap CloudVersion_Final spec_pricing 50 banner_ad Map.empty None True None
   = Inr (\<lparr>sel_picks = [(''Banner Ad'', (''Banner Ad'', ''1x'', 100))], sel_subtotal = 100\<rparr>,
          True)"
  by (simp add: banner_ad_def eval_defs upgrade_loop.simps)

lemma banner_ad_unrounded_1400:
  "greedy_unrounded CloudVersion_Final spec_pricing 1400 banner_ad Map.empty None True None
   = Inr ([(''Banner Ad'', (''Banner Ad'', ''4x'', 350))], 1400, False)"
  by (simp add: banner_ad_def eval_defs upgrade_loop.simps)

lemma banner_ad_pass_1400:
  "upgrade_pass CloudVersion_Final spec_pricing 1400 banner_ad Map.empty None True None
     [(''Banner Ad'', (''Banner Ad'', ''1x'', 100))] 100
   = Inr ([(''Banner Ad'', (''Banner Ad'', ''4x'', 350))], 1400, True)"
  by (simp add: banner_ad_def eval_defs)

subsection \<open>Keywords and lower-cased labels\<close>

text \<open>A lower-cased label holds no capital C, so a keyword that has one is never found in it.\<close>

lemma lower_char_not_C: "lower_char c \<noteq> CHR ''C''"
  by (simp add: lower_char_def)

lemma startswith_set: "startswith s kw \<Longrightarrow> set kw \<subseteq> set s"
  by (induction s kw rule: startswith.induct) auto

lemma str_in_set: "str_in kw s \<Longrightarrow> set kw \<subseteq> set s"
proof (induction s)
  case Nil
  then show ?case by simp
next
  case (Cons c cs)
  from Cons.prems have "startswith (c # cs) kw \<or> str_in kw cs" by simp
  then show ?case
  proof
    assume "startswith (c # cs) kw"
    then show ?thesis by (rule startswith_set)
  next
    assume "str_in kw cs"
    from Cons.IH[OF this] show ?thesis by auto
  qed
qed

lemma capital_keyword_dead:
  "CHR ''C'' \<in> set kw \<Longrightarrow> \<not> str_in kw (lower label)"
proof
  assume c: "CHR ''C'' \<in> set kw" and "str_in kw (lower label)"
  from str_in_set[OF this(2)] c have "CHR ''C'' \<in> set (lower label)" by auto
  then obtain x where "lower_char x = CHR ''C''" by (auto simp: lower_def)
  with lower_char_not_C show False by blast
qed

subsection \<open>The baseline pick of one product\<close>

text \<open>
  The inner loop of phase 1 keeps the first cheapest candidate; for the Interactive Map of
  the Final copy, the first dearest one among those within the budget.
\<close>

lemma baseline_best_snoc:
  "baseline_best v budget pname (cs @ [c])
   = baseline_step v budget pname (baseline_best v budget pname cs) c"
  by (simp add: baseline_best_def)

lemma baseline_best_min:
  assumes "\<not> is_map v pname" and "cs \<noteq> []"
  shows "\<exists>before c after.
           cs = before @ c # after
           \<and> (\<forall>x\<in>set before. cand_line c < cand_line x)
           \<and> (\<forall>x\<in>set after. cand_line c \<le> cand_line x)
           \<and> baseline_best v budget pname cs = Some (cand_pick c, cand_line c)"
  using assms(2)
proof (induction cs rule: rev_induct)
  case Nil
  then show ?case by simp
next
  case (snoc c' cs)
  show ?case
  proof (cases "cs = []")
    case True
    have "baseline_best v budget pname ([] @ [c']) = Some (cand_pick c', cand_line c')"
      using assms(1) by (simp add: baseline_best_def baseline_step_def)
    then show ?thesis using True
      by (intro exI[of _ "[]"] exI[of _ c']) simp
  next
    case False
    from snoc.IH[OF False] obtain before c after where
      split: "cs = before @ c # after"
      and bef: "\<forall>x\<in>set before. cand_line c < cand_line x"
      and aft: "\<forall>x\<in>set after. cand_line c \<le> cand_line x"
      and best: "baseline_best v budget pname cs = Some (cand_pick c, cand_line c)"
      by blast
    show ?thesis
    proof (cases "cand_line c' < cand_line c")
      case True
      with best assms(1)
      have "baseline_best v budget pname (cs @ [c']) = Some (cand_pick c', cand_line c')"
        by (simp add: baseline_best_snoc baseline_step_def)
      moreover from True split bef aft have "\<forall>x\<in>set cs. cand_line c' < cand_line x"
        by fastforce
      ultimately show ?thesis
        by (intro exI[of _ cs] exI[of _ c'] exI[of _ "[]"]) simp
    next
      case False
      with best assms(1)
      have "baseline_best v budget pname (cs @ [c']) = Some (cand_pick c, cand_line c)"
        by (simp add: baseline_best_snoc baseline_step_def)
      moreover from False aft have "\<forall>x\<in>set (after @ [c']). cand_line c \<le> cand_line x"
        by auto
      ultimately show ?thesis using split bef
        by (intro exI[of _ before] exI[of _ c] exI[of _ "after @ [c']"]) simp
    qed
  qed
qed

lemma baseline_best_map_none:
  assumes "is_map v pname" and "\<forall>x\<in>set cs. budget < cand_line x"
  shows "baseline_best v budget pname cs = None"
  using assms(2)
proof (induction cs rule: rev_induct)
  case Nil
  then show ?case by (simp add: baseline_best_def)
next
  case (snoc c' cs)
  then show ?case using assms(1)
    by (simp add: baseline_best_snoc baseline_step_def)
qed

lemma baseline_best_map_max:
  assumes "is_map v pname" and "\<exists>x\<in>set cs. cand_line x \<le> budget"
  shows "\<exists>before c after.
           cs = before @ c # after
           \<and> cand_line c \<le> budget
           \<and> (\<forall>x\<in>set before. cand_line x \<le> budget \<longrightarrow> cand_line x < cand_line c)
           \<and> (\<forall>x\<in>set after. cand_line x \<le> budget \<longrightarrow> cand_line x \<le> cand_line c)
           \<and> baseline_best v budget pname cs = Some (cand_pick c, cand_line c)"
  using assms(2)
proof (induction cs rule: rev_induct)
  case Nil
  then show ?case by simp
next
  case (snoc c' cs)
  show ?case
  proof (cases "\<exists>x\<in>set cs. cand_line x \<le> budget")
    case False
    then have none: "baseline_best v budget pname cs = None"
      using baseline_best_map_none[OF assms(1), of cs budget] by force
    from False snoc.prems have fit: "cand_line c' \<le> budget" by auto
    with none assms(1)
    have "baseline_best v budget pname (cs @ [c']) = Some (cand_pick c', cand_line c')"
      by (simp add: baseline_best_snoc baseline_step_def)
    with fit False show ?thesis
      by (intro exI[of _ cs] exI[of _ c'] exI[of _ "[]"]) auto
  next
    case True
    from snoc.IH[OF True] obtain before c after where
      split: "cs = before @ c # after"
      and fit: "cand_line c \<le> budget"
      and bef: "\<forall>x\<in>set before. cand_line x \<le> budget \<longrightarrow> cand_line x < cand_line c"
      and aft: "\<forall>x\<in>set after. cand_line x \<le> budget \<longrightarrow> cand_line x \<le> cand_line c"
      and best: "baseline_best v budget pname cs = Some (cand_pick c, cand_line c)"
      by blast
    show ?thesis
    proof (cases "cand_line c' \<le> budget \<and> cand_line c < cand_line c'")
      case True
      with best assms(1)
      have "baseline_best v budget pname (cs @ [c']) = Some (cand_pick c', cand_line c')"
        by (simp add: baseline_best_snoc baseline_step_def)
      moreover from True split bef aft
      have "\<forall>x\<in>set cs. cand_line x \<le> budget \<longrightarrow> cand_line x < cand_line c'"
        by fastforce
      ultimately show ?thesis using True
        by (intro exI[of _ cs] exI[of _ c'] exI[of _ "[]"]) simp
    next
      case False
      with best assms(1)
      have "baseline_best v budget pname (cs @ [c']) = Some (cand_pick c, cand_line c)"
        by (auto simp: baseline_best_snoc baseline_step_def)
      moreover from False aft
      have "\<forall>x\<in>set (after @ [c']). cand_line x \<le> budget \<longrightarrow> cand_line x \<le> cand_line c"
        by auto
      ultimately show ?thesis using split bef fit
        by (intro exI[of _ before] exI[of _ c] exI[of _ "after @ [c']"]) simp
    qed
  qed
qed

text \<open>The baseline pick of a product, read off the dictionary.\<close>

lemma baseline_entry_map_of:
  "map_of (baseline_entry v P budget meta d adv q (pname, product)) k
   = (if k = pname
      then map_option fst (baseline_best v budget pname (candidates v P pname product meta d adv q))
      else None)"
  by (auto simp: baseline_entry_def split: option.splits)

lemma baseline_picks_map_of:
  assumes "distinct (map fst products)" and "(pname, product) \<in> set products"
  shows "map_of (fst (baseline v P budget products meta d adv q)) pname
         = map_option fst
             (baseline_best v budget pname (candidates v P pname product meta d adv q))"
proof -
  have none: "k \<notin> fst ` set ps
              \<Longrightarrow> map_of (concat (map (baseline_entry v P budget meta d adv q) ps)) k = None"
    for k ps
    by (induction ps) (auto simp: map_add_def baseline_entry_map_of split: option.splits)
  have "map_of (concat (map (baseline_entry v P budget meta d adv q) products)) pname
        = map_option fst
            (baseline_best v budget pname (candidates v P pname product meta d adv q))"
    using assms
  proof (induction products)
    case Nil
    then show ?case by simp
  next
    case (Cons kv products)
    obtain k p where kv: "kv = (k, p)" by (cases kv) auto
    show ?case
    proof (cases "k = pname")
      case True
      with Cons.prems kv have p: "p = product" and notin: "pname \<notin> fst ` set products"
        by (auto simp: image_iff)
      from none[OF notin] True p kv show ?thesis
        by (simp add: map_add_def baseline_entry_map_of split: option.splits)
    next
      case False
      with Cons.prems kv have "(pname, product) \<in> set products" "distinct (map fst products)"
        by auto
      from Cons.IH[OF this(2,1)] False kv show ?thesis
        by (simp add: map_add_def baseline_entry_map_of)
    qed
  qed
  then show ?thesis by (simp add: baseline_eq)
qed

subsection \<open>The Interactive Map scenario, evaluated\<close>

lemma interactive_map_candidates:
  "candidates CloudVersion_Final spec_pricing ''Chicago Does Interactive Map''
     (snd (interactive_map_set ! 1)) Map.empty None False None
   = [(''Chicago Does Interactive Map'', ''Basic'', 50, 50),
      (''Chicago Does Interactive Map'', ''Premium'', 100, 100)]"
  by (simp add: interactive_map_set_def eval_defs)

lemma interactive_map_99:
  "greedy_fill_to_cap CloudVersion_Final spec_pricing 99 interactive_map_set Map.empty None
     False None
   = Inr (\<lparr>sel_picks = [(''Listing'', (''Listing'', ''Standard'', 10)),
                         (''Chicago Does Interactive Map'',
                          (''Chicago Does Interactive Map'', ''Basic'', 50))],
           sel_subtotal = 60\<rparr>, False)"
  by (simp add: interactive_map_set_def eval_defs upgrade_loop.simps)

lemma interactive_map_100:
  "greedy_fill_to_cap CloudVersion_Final spec_pricing 100 interactive_map_set Map.empty None
     False None
   = Inr (\<lparr>sel_picks = [(''Listing'', (''Listing'', ''Standard'', 10)),
                         (''Chicago Does Interactive Map'',
                          (''Chicago Does Interactive Map'', ''Premium'', 100))],
           sel_subtotal = 110\<rparr>, True)"
  by (simp add: interactive_map_set_def eval_defs upgrade_loop.simps)

lemma interactive_map_40:
  "greedy_fill_to_cap CloudVersion_Final spec_pricing 40 interactive_map_set Map.empty None
     False None
   = Inr (\<lparr>sel_picks = [(''Listing'', (''Listing'', ''Standard'', 10))],
           sel_subtotal = 10\<rparr>, False)"
  by (simp add: interactive_map_set_def eval_defs upgrade_loop.simps)

lemma interactive_map_baseline_99:
  "baseline CloudVersion_Final spec_pricing 99 interactive_map_set Map.empty None False None
   = ([(''Listing'', (''Listing'', ''Standard'', 10)),
       (''Chicago Does Interactive Map'', (''Chicago Does Interactive Map'', ''Basic'', 50))],
      60)"
  by (simp add: interactive_map_set_def eval_defs)

lemma interactive_map_baseline_40:
  "baseline CloudVersion_Final spec_pricing 40 interactive_map_set Map.empty None False None
   = ([(''Listing'', (''Listing'', ''Standard'', 10))], 10)"
  by (simp add: interactive_map_set_def eval_defs)

subsection \<open>A greater budget\<close>

text \<open>
  Two runs from the same picks and subtotal, the second with a greater budget: they agree
  until the second applies an upgrade that does not fit the first budget, and from then on
  the second subtotal is above the first budget.
\<close>

lemma first_fit_budget_mono:
  assumes "b1 \<le> b2"
  shows "first_fit b2 subtotal cur_line us = first_fit b1 subtotal cur_line us
         \<or> (\<exists>c. first_fit b2 subtotal cur_line us = Some c
                \<and> b1 < subtotal - cur_line + cand_line c)"
proof (induction us)
  case Nil
  then show ?case by (simp add: first_fit_def)
next
  case (Cons x us)
  show ?case
  proof (cases "subtotal - cur_line + cand_line x \<le> b1")
    case True
    with assms show ?thesis by (simp add: first_fit_def)
  next
    case False
    show ?thesis
    proof (cases "subtotal - cur_line + cand_line x \<le> b2")
      case True
      with False show ?thesis by (simp add: first_fit_def)
    next
      case nofit: False
      with False Cons.IH show ?thesis by (simp add: first_fit_def)
    qed
  qed
qed

lemma pass_budget_mono:
  assumes "b1 \<le> b2"
    and "upgrade_pass v P b1 products meta d adv q picks subtotal = Inr (p1, s1, i1)"
    and "upgrade_pass v P b2 products meta d adv q picks subtotal = Inr (p2, s2, i2)"
  shows "(p1, s1, i1) = (p2, s2, i2) \<or> b1 < s2"
  using assms(2,3)
proof (induction picks arbitrary: subtotal p1 s1 i1 p2 s2 i2)
  case Nil
  then show ?case by simp
next
  case (Cons kv rest)
  obtain pname cur_opt cur_lbl cur_base where kv: "kv = (pname, (cur_opt, cur_lbl, cur_base))"
    by (cases kv) auto
  from Cons.prems(1) kv obtain product where prod: "map_of products pname = Some product"
    by (auto split: option.splits)
  let ?cur = "line_price v P pname product cur_lbl cur_base q"
  let ?us = "upgrades v P pname product meta d adv q ?cur"
  from first_fit_budget_mono[OF assms(1), of subtotal ?cur ?us]
  show ?case
  proof
    assume same: "first_fit b2 subtotal ?cur ?us = first_fit b1 subtotal ?cur ?us"
    show ?thesis
    proof (cases "first_fit b1 subtotal ?cur ?us")
      case None
      with Cons.prems(1) kv prod obtain r1 where
        r1: "upgrade_pass v P b1 products meta d adv q rest subtotal = Inr (r1, s1, i1)"
        and p1: "p1 = kv # r1"
        by (auto simp: Let_def split: sum.splits)
      from None same Cons.prems(2) kv prod obtain r2 where
        r2: "upgrade_pass v P b2 products meta d adv q rest subtotal = Inr (r2, s2, i2)"
        and p2: "p2 = kv # r2"
        by (auto simp: Let_def split: sum.splits)
      from Cons.IH[OF r1 r2] p1 p2 show ?thesis by auto
    next
      case (Some c)
      obtain opt_name lbl eff_base new_line where c: "c = (opt_name, lbl, eff_base, new_line)"
        by (cases c) auto
      from Some c Cons.prems(1) kv prod obtain r1 j1 where
        r1: "upgrade_pass v P b1 products meta d adv q rest (subtotal - ?cur + new_line)
             = Inr (r1, s1, j1)"
        and p1: "p1 = (pname, (opt_name, lbl, eff_base)) # r1" and i1: "i1"
        by (auto simp: Let_def split: sum.splits)
      from Some same c Cons.prems(2) kv prod obtain r2 j2 where
        r2: "upgrade_pass v P b2 products meta d adv q rest (subtotal - ?cur + new_line)
             = Inr (r2, s2, j2)"
        and p2: "p2 = (pname, (opt_name, lbl, eff_base)) # r2" and i2: "i2"
        by (auto simp: Let_def split: sum.splits)
      from Cons.IH[OF r1 r2] p1 p2 i1 i2 show ?thesis by auto
    qed
  next
    assume "\<exists>c. first_fit b2 subtotal ?cur ?us = Some c \<and> b1 < subtotal - ?cur + cand_line c"
    then obtain c where f2: "first_fit b2 subtotal ?cur ?us = Some c"
      and over: "b1 < subtotal - ?cur + cand_line c" by blast
    obtain opt_name lbl eff_base new_line where c: "c = (opt_name, lbl, eff_base, new_line)"
      by (cases c) auto
    from f2 c Cons.prems(2) kv prod obtain r2 j2 where
      r2: "upgrade_pass v P b2 products meta d adv q rest (subtotal - ?cur + new_line)
           = Inr (r2, s2, j2)"
      by (auto simp: Let_def split: sum.splits)
    from pass_subtotal[OF r2] over c have "b1 < s2" by (simp add: cand_line_def)
    then show ?thesis ..
  qed
qed

lemma loop_budget_mono:
  assumes "b1 \<le> b2"
  shows "upgrade_loop v P b1 products meta d adv q picks subtotal = Inr (p1, s1)
         \<Longrightarrow> upgrade_loop v P b2 products meta d adv q picks subtotal = Inr (p2, s2)
         \<Longrightarrow> subtotal \<le> b1 \<Longrightarrow> s1 \<le> s2"
  using assms
proof (induction v P b1 products meta d adv q picks subtotal arbitrary: p1 s1 p2 s2
       rule: upgrade_loop.induct)
  case (1 v P b1 products meta d adv q picks subtotal)
  note l1 = "1.prems"(1) and l2 = "1.prems"(2) and le = "1.prems"(3) and b = "1.prems"(4)
  from l1 obtain q1 t1 i1 where
    pass1: "upgrade_pass v P b1 products meta d adv q picks subtotal = Inr (q1, t1, i1)"
    by (cases rule: upgrade_loop_InrE) auto
  from l2 obtain q2 t2 i2 where
    pass2: "upgrade_pass v P b2 products meta d adv q picks subtotal = Inr (q2, t2, i2)"
    by (cases rule: upgrade_loop_InrE) auto
  have t2s2: "t2 \<le> s2"
    using l2
  proof (cases rule: upgrade_loop_InrE)
    case stop
    with pass2 show ?thesis by simp
  next
    case (again r2 u2)
    with pass2 loop_subtotal[OF again(2)] show ?thesis by simp
  qed
  from pass_budget_mono[OF b pass1 pass2] show ?case
  proof
    assume "b1 < t2"
    with loop_bound[OF l1 le] t2s2 show ?thesis by simp
  next
    assume same: "(q1, t1, i1) = (q2, t2, i2)"
    show ?thesis
    proof (cases i1)
      case True
      from l1 pass1 True have l1': "upgrade_loop v P b1 products meta d adv q q1 t1 = Inr (p1, s1)"
        by (subst (asm) upgrade_loop.simps) simp
      from l2 pass2 True same
      have l2': "upgrade_loop v P b2 products meta d adv q q1 t1 = Inr (p2, s2)"
        by (subst (asm) upgrade_loop.simps) simp
      from "1.IH"[OF pass1 refl refl True l1' l2' pass_bound[OF pass1 le] b]
      show ?thesis .
    next
      case False
      from l1 pass1 False have "s1 = t1" by (subst (asm) upgrade_loop.simps) simp
      moreover from l2 pass2 False same have "s2 = t1"
        by (subst (asm) upgrade_loop.simps) simp
      ultimately show ?thesis by simp
    qed
  qed
qed

lemma round_half_even_mono: "x \<le> y \<Longrightarrow> round_half_even x \<le> round_half_even y"
proof -
  assume le: "x \<le> y"
  have lo: "\<lfloor>z\<rfloor> \<le> round_half_even z" and hi: "round_half_even z \<le> \<lfloor>z\<rfloor> + 1" for z
    by (simp_all add: round_half_even_def Let_def)
  from le have fl: "\<lfloor>x\<rfloor> \<le> \<lfloor>y\<rfloor>" by (rule floor_mono)
  show ?thesis
  proof (cases "\<lfloor>x\<rfloor> = \<lfloor>y\<rfloor>")
    case True
    with le have "x - of_int \<lfloor>x\<rfloor> \<le> y - of_int \<lfloor>y\<rfloor>" by simp
    with True show ?thesis by (auto simp: round_half_even_def Let_def)
  next
    case False
    with fl have "\<lfloor>x\<rfloor> + 1 \<le> \<lfloor>y\<rfloor>" by simp
    with lo[of y] hi[of x] show ?thesis by linarith
  qed
qed

lemma round2_mono: "x \<le> y \<Longrightarrow> round2 x \<le> round2 y"
  using round_half_even_mono[of "x * 100" "y * 100"]
  by (simp add: round2_def divide_right_mono)

text \<open>The baseline pick of a product under two budgets.\<close>

lemma baseline_best_mem:
  "baseline_best v b pname cs = Some (p, l)
   \<Longrightarrow> \<exists>c\<in>set cs. p = cand_pick c \<and> l = cand_line c \<and> (is_map v pname \<longrightarrow> l \<le> b)"
proof (induction cs arbitrary: p l rule: rev_induct)
  case Nil
  then show ?case by (simp add: baseline_best_def)
next
  case (snoc c cs)
  show ?case
  proof (cases "baseline_best v b pname (cs @ [c]) = baseline_best v b pname cs")
    case True
    with snoc show ?thesis by auto
  next
    case False
    then have "baseline_best v b pname (cs @ [c]) = Some (cand_pick c, cand_line c)"
      and "is_map v pname \<longrightarrow> cand_line c \<le> b"
      by (auto simp: baseline_best_snoc baseline_step_def Let_def split: if_splits)
    with snoc.prems show ?thesis by auto
  qed
qed

lemma baseline_best_no_map:
  "\<not> is_map v pname \<Longrightarrow> baseline_best v b1 pname cs = baseline_best v b2 pname cs"
  by (induction cs rule: rev_induct)
     (simp_all add: baseline_best_def baseline_step_def)

lemma baseline_best_budget_mono:
  assumes "b1 \<le> b2"
  shows "baseline_best v b1 pname cs = baseline_best v b2 pname cs
         \<or> (\<exists>p2 l2. baseline_best v b2 pname cs = Some (p2, l2) \<and> b1 < l2
               \<and> (\<forall>p l. baseline_best v b1 pname cs = Some (p, l) \<longrightarrow> l \<le> b1))"
proof (cases "is_map v pname")
  case False
  then show ?thesis using baseline_best_no_map by blast
next
  case True
  have le1: "baseline_best v b1 pname xs = Some (p, l) \<Longrightarrow> l \<le> b1" for xs p l
    using baseline_best_mem[of v b1 pname xs p l] True by auto
  show ?thesis
  proof (induction cs rule: rev_induct)
    case Nil
    then show ?case by (simp add: baseline_best_def)
  next
    case (snoc c cs)
    let ?l = "cand_line c"
    from snoc.IH show ?case
    proof
      assume same: "baseline_best v b1 pname cs = baseline_best v b2 pname cs"
      show ?thesis
      proof (cases "?l \<le> b1")
        case True
        with assms same \<open>is_map v pname\<close> show ?thesis
          by (simp add: baseline_best_snoc baseline_step_def)
      next
        case over1: False
        show ?thesis
        proof (cases "?l \<le> b2")
          case False
          with over1 same \<open>is_map v pname\<close> show ?thesis
            by (simp add: baseline_best_snoc baseline_step_def)
        next
          case fit2: True
          have "baseline_best v b2 pname (cs @ [c]) = Some (cand_pick c, ?l)"
          proof (cases "baseline_best v b2 pname cs")
            case None
            with fit2 \<open>is_map v pname\<close> show ?thesis
              by (simp add: baseline_best_snoc baseline_step_def)
          next
            case (Some pl)
            obtain p l where pl: "pl = (p, l)" by (cases pl) auto
            from Some pl same le1[of cs p l] have "l \<le> b1" by simp
            with over1 have "l < ?l" by simp
            with Some pl fit2 \<open>is_map v pname\<close> show ?thesis
              by (simp add: baseline_best_snoc baseline_step_def)
          qed
          moreover have "\<forall>p l. baseline_best v b1 pname (cs @ [c]) = Some (p, l) \<longrightarrow> l \<le> b1"
            using le1 by blast
          ultimately show ?thesis using over1
            by (intro disjI2 exI[of _ "cand_pick c"] exI[of _ ?l]) simp
        qed
      qed
    next
      assume "\<exists>p2 l2. baseline_best v b2 pname cs = Some (p2, l2) \<and> b1 < l2
               \<and> (\<forall>p l. baseline_best v b1 pname cs = Some (p, l) \<longrightarrow> l \<le> b1)"
      then obtain p2 l2 where b2: "baseline_best v b2 pname cs = Some (p2, l2)"
        and over: "b1 < l2" by blast
      have "\<exists>p2' l2'. baseline_best v b2 pname (cs @ [c]) = Some (p2', l2') \<and> b1 < l2'"
      proof (cases "?l \<le> b2 \<and> l2 < ?l")
        case True
        with b2 \<open>is_map v pname\<close>
        have "baseline_best v b2 pname (cs @ [c]) = Some (cand_pick c, ?l)"
          by (simp add: baseline_best_snoc baseline_step_def)
        moreover from True over have "b1 < ?l" by simp
        ultimately show ?thesis by blast
      next
        case False
        with b2 \<open>is_map v pname\<close>
        have "baseline_best v b2 pname (cs @ [c]) = Some (p2, l2)"
          by (auto simp: baseline_best_snoc baseline_step_def)
        with over show ?thesis by blast
      qed
      then obtain p2' l2' where "baseline_best v b2 pname (cs @ [c]) = Some (p2', l2')"
        and "b1 < l2'" by blast
      moreover have "\<forall>p l. baseline_best v b1 pname (cs @ [c]) = Some (p, l) \<longrightarrow> l \<le> b1"
        using le1 by blast
      ultimately show ?thesis
        by (intro disjI2 exI[of _ p2'] exI[of _ l2']) simp
    qed
  qed
qed

lemma baseline_cost_eq:
  "baseline_cost v P b meta d adv q (pname, product)
   = (case baseline_best v b pname (candidates v P pname product meta d adv q) of
        None \<Rightarrow> 0
      | Some (p, l) \<Rightarrow> l)"
proof (cases "baseline_best v b pname (candidates v P pname product meta d adv q)")
  case None
  then show ?thesis by (simp add: baseline_cost_def)
next
  case (Some pl)
  obtain opt_name lbl eff_base l where pl: "pl = ((opt_name, lbl, eff_base), l)"
    by (cases pl) auto
  from baseline_best_mem[OF Some[unfolded pl]] obtain c where
    c: "c \<in> set (candidates v P pname product meta d adv q)"
    and p: "(opt_name, lbl, eff_base) = cand_pick c" and l: "l = cand_line c"
    by blast
  from p l have "c = (opt_name, lbl, eff_base, l)"
    by (cases c) (auto simp: cand_pick_def cand_line_def)
  with c have "l = line_price v P pname product lbl eff_base q"
    using cand_line_consistent by blast
  with Some pl show ?thesis by (simp add: baseline_cost_def)
qed

lemma baseline_entry_eq:
  "baseline_entry v P b meta d adv q (pname, product)
   = (case baseline_best v b pname (candidates v P pname product meta d adv q) of
        None \<Rightarrow> []
      | Some (p, l) \<Rightarrow> [(pname, p)])"
  by (simp add: baseline_entry_def)

lemma baseline_cost_nonneg:
  assumes "\<forall>c\<in>set (candidates v P pname product meta d adv q). 0 \<le> cand_line c"
  shows "0 \<le> baseline_cost v P b meta d adv q (pname, product)"
proof (cases "baseline_best v b pname (candidates v P pname product meta d adv q)")
  case None
  then show ?thesis by (simp add: baseline_cost_eq)
next
  case (Some pl)
  obtain p l where pl: "pl = (p, l)" by (cases pl) auto
  from baseline_best_mem[OF Some[unfolded pl]] assms have "0 \<le> l" by auto
  with Some pl show ?thesis by (simp add: baseline_cost_eq)
qed

text \<open>
  One product under two budgets: the same entry and cost, or a cost above the smaller
  budget under the greater one.
\<close>

lemma baseline_product_budget_mono:
  assumes "b1 \<le> b2"
  shows "(baseline_entry v P b1 meta d adv q kv = baseline_entry v P b2 meta d adv q kv
          \<and> baseline_cost v P b1 meta d adv q kv = baseline_cost v P b2 meta d adv q kv)
         \<or> (b1 < baseline_cost v P b2 meta d adv q kv
            \<and> (baseline_cost v P b1 meta d adv q kv \<le> b1
                \<or> baseline_cost v P b1 meta d adv q kv = 0))"
proof -
  obtain pname product where kv: "kv = (pname, product)" by (cases kv) auto
  let ?cs = "candidates v P pname product meta d adv q"
  from baseline_best_budget_mono[OF assms, of v pname ?cs] show ?thesis
  proof
    assume "baseline_best v b1 pname ?cs = baseline_best v b2 pname ?cs"
    then show ?thesis by (simp add: kv baseline_entry_eq baseline_cost_eq)
  next
    assume "\<exists>p2 l2. baseline_best v b2 pname ?cs = Some (p2, l2) \<and> b1 < l2
               \<and> (\<forall>p l. baseline_best v b1 pname ?cs = Some (p, l) \<longrightarrow> l \<le> b1)"
    then obtain p2 l2 where b2: "baseline_best v b2 pname ?cs = Some (p2, l2)"
      and over: "b1 < l2"
      and le1: "\<forall>p l. baseline_best v b1 pname ?cs = Some (p, l) \<longrightarrow> l \<le> b1"
      by blast
    from b2 over have "b1 < baseline_cost v P b2 meta d adv q kv"
      by (simp add: kv baseline_cost_eq)
    moreover have "baseline_cost v P b1 meta d adv q kv \<le> b1
                   \<or> baseline_cost v P b1 meta d adv q kv = 0"
      using le1 by (cases "baseline_best v b1 pname ?cs") (auto simp: kv baseline_cost_eq)
    ultimately show ?thesis by blast
  qed
qed

lemma baseline_no_map:
  assumes "\<forall>kv\<in>set products. \<not> is_map v (fst kv)"
  shows "baseline v P b1 products meta d adv q = baseline v P b2 products meta d adv q"
proof -
  have "baseline_entry v P b1 meta d adv q kv = baseline_entry v P b2 meta d adv q kv
        \<and> baseline_cost v P b1 meta d adv q kv = baseline_cost v P b2 meta d adv q kv"
    if "kv \<in> set products" for kv
  proof -
    obtain pname product where kv: "kv = (pname, product)" by (cases kv) auto
    from that assms kv have "\<not> is_map v pname" by auto
    from baseline_best_no_map[OF this, of b1 _ b2] show ?thesis
      by (simp add: kv baseline_entry_eq baseline_cost_eq)
  qed
  then have m: "map (baseline_entry v P b1 meta d adv q) products
                = map (baseline_entry v P b2 meta d adv q) products"
    "map (baseline_cost v P b1 meta d adv q) products
     = map (baseline_cost v P b2 meta d adv q) products"
    by simp_all
  show ?thesis unfolding baseline_eq m by (rule refl)
qed

lemma sum_list_nonneg_ge_member:
  fixes f :: "'a \<Rightarrow> rat"
  assumes "\<forall>x\<in>set xs. 0 \<le> f x" and "y \<in> set xs"
  shows "f y \<le> sum_list (map f xs)"
  using assms
proof (induction xs)
  case Nil
  then show ?case by simp
next
  case (Cons x xs)
  from Cons.prems(1) have nn: "0 \<le> sum_list (map f xs)" by (intro sum_list_nonneg) auto
  show ?case
  proof (cases "y = x")
    case True
    with nn show ?thesis by simp
  next
    case False
    with Cons have "f y \<le> sum_list (map f xs)" by auto
    moreover from Cons.prems(1) have "0 \<le> f x" by simp
    ultimately show ?thesis by simp
  qed
qed

text \<open>
  The baseline under two budgets, no line price being negative: the same, or a subtotal
  above the smaller budget under the greater one; and the subtotal does not drop.
\<close>

lemma baseline_budget_mono:
  assumes "b1 \<le> b2"
    and nonneg: "\<forall>kv\<in>set products.
                   \<forall>c\<in>set (candidates v P (fst kv) (snd kv) meta d adv q). 0 \<le> cand_line c"
  shows "(baseline v P b1 products meta d adv q = baseline v P b2 products meta d adv q
          \<or> b1 < snd (baseline v P b2 products meta d adv q))
         \<and> snd (baseline v P b1 products meta d adv q)
             \<le> snd (baseline v P b2 products meta d adv q)"
proof -
  let ?e1 = "baseline_entry v P b1 meta d adv q" and ?e2 = "baseline_entry v P b2 meta d adv q"
  let ?c1 = "baseline_cost v P b1 meta d adv q" and ?c2 = "baseline_cost v P b2 meta d adv q"
  have nn2: "0 \<le> ?c2 kv" if "kv \<in> set products" for kv
  proof -
    from nonneg that
    have "\<forall>c\<in>set (candidates v P (fst kv) (snd kv) meta d adv q). 0 \<le> cand_line c"
      by blast
    from baseline_cost_nonneg[OF this, of b2] show ?thesis by simp
  qed
  have le: "?c1 kv \<le> ?c2 kv" if "kv \<in> set products" for kv
  proof -
    from baseline_product_budget_mono[OF assms(1), of v P meta d adv q kv]
    consider "?c1 kv = ?c2 kv" | "b1 < ?c2 kv" "?c1 kv \<le> b1" | "?c1 kv = 0"
      by blast
    then show ?thesis
    proof cases
      case 1
      then show ?thesis by simp
    next
      case 2
      then show ?thesis by simp
    next
      case 3
      with nn2[OF that] show ?thesis by simp
    qed
  qed
  have mono: "sum_list (map ?c1 products) \<le> sum_list (map ?c2 products)"
    by (rule sum_list_mono) (rule le)
  have "baseline v P b1 products meta d adv q = baseline v P b2 products meta d adv q
        \<or> b1 < snd (baseline v P b2 products meta d adv q)"
  proof (cases "\<exists>kv\<in>set products. b1 < ?c2 kv")
    case True
    then obtain kv where kv: "kv \<in> set products" and over: "b1 < ?c2 kv" by blast
    from nn2 have "\<forall>x\<in>set products. 0 \<le> ?c2 x" by blast
    from sum_list_nonneg_ge_member[OF this kv]
    have "?c2 kv \<le> sum_list (map ?c2 products)" .
    with over show ?thesis by (simp add: baseline_eq)
  next
    case False
    have "?e1 kv = ?e2 kv \<and> ?c1 kv = ?c2 kv" if "kv \<in> set products" for kv
    proof -
      from False that have "\<not> b1 < ?c2 kv" by blast
      with baseline_product_budget_mono[OF assms(1), of v P meta d adv q kv]
      show ?thesis by blast
    qed
    then have m: "map ?e1 products = map ?e2 products" "map ?c1 products = map ?c2 products"
      by simp_all
    have "baseline v P b1 products meta d adv q = baseline v P b2 products meta d adv q"
      unfolding baseline_eq m by (rule refl)
    then show ?thesis ..
  qed
  with mono show ?thesis by (simp add: baseline_eq)
qed

text \<open>What the allocator returns, by cases on the forced overage.\<close>

lemma greedy_unrounded_cases:
  assumes "greedy_unrounded v P budget products meta d adv q = Inr (picks, subtotal, forced)"
  shows "forced = (budget < snd (baseline v P budget products meta d adv q))"
    and "snd (baseline v P budget products meta d adv q) \<le> subtotal"
    and "forced \<Longrightarrow> subtotal = snd (baseline v P budget products meta d adv q)"
    and "\<not> forced \<Longrightarrow> subtotal \<le> budget"
    and "\<not> forced \<Longrightarrow>
           upgrade_loop v P budget products meta d adv q
             (fst (baseline v P budget products meta d adv q))
             (snd (baseline v P budget products meta d adv q)) = Inr (picks, subtotal)"
proof -
  obtain bp bs where b: "baseline v P budget products meta d adv q = (bp, bs)"
    by (cases "baseline v P budget products meta d adv q") auto
  from assms b show f: "forced = (budget < snd (baseline v P budget products meta d adv q))"
    by (auto simp: greedy_unrounded_def Let_def split: if_splits sum.splits)
  from assms b show "forced \<Longrightarrow> subtotal = snd (baseline v P budget products meta d adv q)"
    by (auto simp: greedy_unrounded_def Let_def split: if_splits sum.splits)
  from assms b
  show loop: "\<not> forced \<Longrightarrow>
           upgrade_loop v P budget products meta d adv q
             (fst (baseline v P budget products meta d adv q))
             (snd (baseline v P budget products meta d adv q)) = Inr (picks, subtotal)"
    by (auto simp: greedy_unrounded_def Let_def split: if_splits sum.splits)
  from loop f loop_bound show "\<not> forced \<Longrightarrow> subtotal \<le> budget"
    by (metis not_less)
  from assms b loop loop_subtotal
  show "snd (baseline v P budget products meta d adv q) \<le> subtotal"
    by (cases forced) (auto simp: greedy_unrounded_def Let_def split: if_splits sum.splits)
qed

lemma greedy_same_baseline_mono:
  assumes "b1 \<le> b2"
    and "baseline v P b1 products meta d adv q = baseline v P b2 products meta d adv q"
    and g1: "greedy_unrounded v P b1 products meta d adv q = Inr (p1, s1, f1)"
    and g2: "greedy_unrounded v P b2 products meta d adv q = Inr (p2, s2, f2)"
  shows "s1 \<le> s2" and "\<not> f1 \<Longrightarrow> \<not> f2"
proof -
  note c1 = greedy_unrounded_cases[OF g1] and c2 = greedy_unrounded_cases[OF g2]
  from c1(1) c2(1) assms(1,2) show nf: "\<not> f1 \<Longrightarrow> \<not> f2" by simp
  show "s1 \<le> s2"
  proof (cases f1)
    case True
    from c1(3)[OF True] c2(2) assms(2) show ?thesis by simp
  next
    case False
    from nf[OF False] have nf2: "\<not> f2" .
    from c1(1) False have le: "snd (baseline v P b1 products meta d adv q) \<le> b1" by simp
    from c2(5)[OF nf2] assms(2)
    have l2: "upgrade_loop v P b2 products meta d adv q
                (fst (baseline v P b1 products meta d adv q))
                (snd (baseline v P b1 products meta d adv q)) = Inr (p2, s2)"
      by simp
    from loop_budget_mono[OF assms(1) c1(5)[OF False] l2 le] show ?thesis .
  qed
qed

lemma greedy_greater_baseline_mono:
  assumes "b1 < snd (baseline v P b2 products meta d adv q)"
    and "snd (baseline v P b1 products meta d adv q)
         \<le> snd (baseline v P b2 products meta d adv q)"
    and g1: "greedy_unrounded v P b1 products meta d adv q = Inr (p1, s1, f1)"
    and g2: "greedy_unrounded v P b2 products meta d adv q = Inr (p2, s2, f2)"
  shows "s1 \<le> s2"
proof -
  note c1 = greedy_unrounded_cases[OF g1] and c2 = greedy_unrounded_cases[OF g2]
  show ?thesis
  proof (cases f1)
    case True
    from c1(3)[OF True] assms(2) c2(2) show ?thesis by simp
  next
    case False
    from c1(4)[OF False] assms(1) c2(2) show ?thesis by simp
  qed
qed

lemma greedy_fill_to_cap_InrE:
  assumes "greedy_fill_to_cap v P budget products meta d adv q = Inr (sel, forced)"
  obtains subtotal where
    "greedy_unrounded v P budget products meta d adv q = Inr (sel_picks sel, subtotal, forced)"
    "sel_subtotal sel = round2 subtotal"
  using assms by (auto simp: greedy_fill_to_cap_def split: sum.splits)

subsection \<open>The rounding to a double\<close>

text \<open>\<open>bit_length\<close> and \<open>floor_log2\<close> find the binade of their argument.\<close>

lemma bit_length_bounds:
  "0 < n \<Longrightarrow> 2 ^ (bit_length n - 1) \<le> n \<and> n < 2 ^ bit_length n"
proof (induction n rule: bit_length.induct)
  case (1 n)
  from "1.prems" have bl: "bit_length n = Suc (bit_length (n div 2))"
    by (subst bit_length.simps) simp
  show ?case
  proof (cases "n div 2 = 0")
    case True
    with "1.prems" have "n = 1" by (simp add: div_eq_0_iff) 
    then show ?thesis by (simp add: bit_length.simps)
  next
    case False
    with "1.IH" "1.prems" have ih: "2 ^ (bit_length (n div 2) - 1) \<le> n div 2"
      "n div 2 < 2 ^ bit_length (n div 2)" by simp_all
    from False have pos: "0 < bit_length (n div 2)"
      by (subst bit_length.simps) simp
    then have "(2::nat) ^ bit_length (n div 2) = 2 * 2 ^ (bit_length (n div 2) - 1)"
      by (cases "bit_length (n div 2)") simp_all
    with ih(1) have "2 ^ bit_length (n div 2) \<le> 2 * (n div 2)" by simp
    also have "\<dots> \<le> n" by simp
    finally have lo: "2 ^ (bit_length n - 1) \<le> n" by (simp add: bl)
    from ih(2) have "n div 2 + 1 \<le> 2 ^ bit_length (n div 2)" by simp
    then have "2 * (n div 2) + 2 \<le> 2 ^ bit_length n" by (simp add: bl)
    moreover have "n < 2 * (n div 2) + 2" by presburger
    ultimately have "n < 2 ^ bit_length n" by simp
    with lo show ?thesis ..
  qed
qed

lemma pow2_pos: "0 < pow2 e"
  by (simp add: pow2_def)

lemma pow2_Suc: "pow2 (e + 1) = 2 * pow2 e"
proof (cases "0 \<le> e")
  case True
  then have "nat (e + 1) = Suc (nat e)" by simp
  with True show ?thesis by (simp add: pow2_def)
next
  case False
  then have "nat (- e) = Suc (nat (- (e + 1)))" by simp
  with False show ?thesis by (auto simp: pow2_def)
qed

lemma floor_log2_bounds:
  assumes "0 < x"
  shows "pow2 (floor_log2 x) \<le> x \<and> x < pow2 (floor_log2 x + 1)"
proof (cases "1 \<le> x")
  case True
  let ?n = "nat \<lfloor>x\<rfloor>"
  from True have n: "0 < ?n" by simp
  from True have fl: "floor_log2 x = int (bit_length ?n) - 1" by (simp add: floor_log2_def)
  from bit_length_bounds[OF n] have lo: "2 ^ (bit_length ?n - 1) \<le> ?n"
    and hi: "?n < 2 ^ bit_length ?n" by simp_all
  from hi n have bpos: "0 < bit_length ?n" by (cases "bit_length ?n") simp_all
  then have k: "nat (int (bit_length ?n) - 1) = bit_length ?n - 1" by simp
  from lo have "(2::rat) ^ (bit_length ?n - 1) \<le> of_nat ?n"
    by (metis of_nat_le_iff of_nat_numeral of_nat_power)
  also from True have "(of_nat ?n :: rat) = of_int \<lfloor>x\<rfloor>" by simp
  also have "\<dots> \<le> x" by simp
  finally have a: "pow2 (floor_log2 x) \<le> x" using bpos by (simp add: fl pow2_def k)
  from hi have "?n + 1 \<le> 2 ^ bit_length ?n" by linarith
  then have "(of_nat (?n + 1) :: rat) \<le> 2 ^ bit_length ?n"
    by (metis of_nat_le_iff of_nat_numeral of_nat_power)
  moreover from True have "x < of_nat (?n + 1)"
    by (simp add: of_nat_nat) linarith
  ultimately have "x < 2 ^ bit_length ?n" by simp
  then have "x < pow2 (floor_log2 x + 1)" by (simp add: fl pow2_def)
  with a show ?thesis ..
next
  case False
  let ?m = "\<lceil>1 / x\<rceil>"
  let ?c = "bit_length (nat (?m - 1))"
  from False assms have y: "1 < 1 / x" by simp
  then have m2: "2 \<le> ?m" by (simp add: le_ceiling_iff) 
  then have n: "0 < nat (?m - 1)" by simp
  from m2 have "0 \<le> ?m - 1" by linarith
  then have "int (nat (?m - 1)) = ?m - 1" by (rule nat_0_le)
  then have nm: "(of_nat (nat (?m - 1)) :: rat) = of_int ?m - 1"
    by (metis of_int_of_nat_eq of_int_diff of_int_1)
  from False have fl: "floor_log2 x = - int ?c" by (simp add: floor_log2_def)
  from bit_length_bounds[OF n] have lo: "2 ^ (?c - 1) \<le> nat (?m - 1)"
    and hi: "nat (?m - 1) < 2 ^ ?c" by simp_all
  from hi n have cpos: "0 < ?c" by (cases ?c) simp_all
  from hi have "nat (?m - 1) + 1 \<le> 2 ^ ?c" by linarith
  then have "(of_nat (nat (?m - 1) + 1) :: rat) \<le> 2 ^ ?c"
    by (metis of_nat_le_iff of_nat_numeral of_nat_power)
  moreover from nm have "(of_nat (nat (?m - 1) + 1) :: rat) = of_int ?m" by simp
  moreover have "1 / x \<le> of_int ?m" by (rule le_of_int_ceiling)
  ultimately have "1 / x \<le> 2 ^ ?c" by linarith
  with assms have "1 / 2 ^ ?c \<le> x"
    by (simp add: field_simps)
  with cpos have a: "pow2 (floor_log2 x) \<le> x" by (simp add: fl pow2_def)
  from lo have "(2::rat) ^ (?c - 1) \<le> of_nat (nat (?m - 1))"
    by (metis of_nat_le_iff of_nat_numeral of_nat_power)
  moreover have "of_int ?m - 1 < 1 / x"
    using ceiling_correct[of "1 / x"] by linarith
  ultimately have "2 ^ (?c - 1) < 1 / x" using nm by linarith
  with assms have "x < 1 / 2 ^ (?c - 1)" by (simp add: field_simps)
  moreover from cpos have "pow2 (floor_log2 x + 1) = 1 / 2 ^ (?c - 1)"
  proof (cases "?c = 1")
    case True
    then show ?thesis by (simp add: fl pow2_def)
  next
    case False
    with cpos have "nat (int ?c - 1) = ?c - 1" "\<not> (int ?c \<le> 1)" by simp_all
    then show ?thesis by (simp add: fl pow2_def)
  qed
  ultimately have "x < pow2 (floor_log2 x + 1)" by simp
  with a show ?thesis ..
qed

lemma round_half_even_error: "\<bar>of_int (round_half_even y) - y\<bar> \<le> 1 / 2"
proof -
  have "of_int \<lfloor>y\<rfloor> \<le> y" "y < of_int \<lfloor>y\<rfloor> + 1" by linarith+
  then show ?thesis by (auto simp: round_half_even_def Let_def)
qed

lemma to_double_error:
  assumes "x \<noteq> 0"
  shows "\<bar>to_double x - x\<bar> \<le> pow2 (floor_log2 \<bar>x\<bar> - 52) / 2"
proof -
  let ?u = "pow2 (floor_log2 \<bar>x\<bar> - 52)"
  have u: "0 < ?u" by (rule pow2_pos)
  from assms have "to_double x - x = (of_int (round_half_even (x / ?u)) - x / ?u) * ?u"
    using u by (simp add: to_double_def Let_def field_simps)
  then have "\<bar>to_double x - x\<bar> = \<bar>of_int (round_half_even (x / ?u)) - x / ?u\<bar> * ?u"
    using u by (simp add: abs_mult)
  also have "\<dots> \<le> (1 / 2) * ?u"
    using round_half_even_error[of "x / ?u"] u by (intro mult_right_mono) simp_all
  finally show ?thesis by simp
qed


lemma pow2_power_int: "pow2 e = 2 powi e"
  by (simp add: pow2_def power_int_def power_inverse field_simps)

text \<open>
  \<open>to_double x\<close> is a multiple of the unit in the last place of \<open>x\<close>, within half a unit of
  \<open>x\<close>, and \<open>x\<close> has a significand of 53 bits in that unit.
\<close>

lemma to_double_nearest:
  assumes "x \<noteq> 0"
  shows "\<exists>m. to_double x = of_int m * pow2 (floor_log2 \<bar>x\<bar> - 52)
             \<and> \<bar>to_double x - x\<bar> \<le> pow2 (floor_log2 \<bar>x\<bar> - 52) / 2
             \<and> 2 ^ 52 * pow2 (floor_log2 \<bar>x\<bar> - 52) \<le> \<bar>x\<bar>
             \<and> \<bar>x\<bar> < 2 ^ 53 * pow2 (floor_log2 \<bar>x\<bar> - 52)"
proof -
  let ?k = "floor_log2 \<bar>x\<bar>"
  from assms have "0 < \<bar>x\<bar>" by simp
  from floor_log2_bounds[OF this] have lo: "pow2 ?k \<le> \<bar>x\<bar>" and hi: "\<bar>x\<bar> < pow2 (?k + 1)"
    by simp_all
  have "?k = (?k - 52) + 52" by simp
  then have "pow2 ?k = 2 powi ((?k - 52) + 52)" by (simp only: pow2_power_int)
  also have "\<dots> = 2 powi (?k - 52) * 2 powi 52" by (rule power_int_add) simp
  finally have a: "pow2 ?k = 2 ^ 52 * pow2 (?k - 52)" by (simp add: pow2_power_int)
  have "?k + 1 = (?k - 52) + 53" by simp
  then have "pow2 (?k + 1) = 2 powi ((?k - 52) + 53)" by (simp only: pow2_power_int)
  also have "\<dots> = 2 powi (?k - 52) * 2 powi 53" by (rule power_int_add) simp
  finally have b: "pow2 (?k + 1) = 2 ^ 53 * pow2 (?k - 52)" by (simp add: pow2_power_int)
  from assms have "to_double x = of_int (round_half_even (x / pow2 (?k - 52))) * pow2 (?k - 52)"
    by (simp add: to_double_def Let_def)
  with to_double_error[OF assms] lo hi a b show ?thesis by auto
qed

subsection \<open>Double-precision arithmetic, evaluated\<close>

text \<open>The floor and the ceiling of a quotient of numerals, for the simplifier.\<close>

lemma floor_rat_numeral:
  "\<lfloor>(numeral a :: rat) / numeral b\<rfloor> = numeral a div numeral b"
  by (metis floor_divide_of_int_eq of_int_numeral)

lemma floor_rat_neg_numeral:
  "\<lfloor>- (numeral a :: rat) / numeral b\<rfloor> = - numeral a div numeral b"
  by (metis floor_divide_of_int_eq of_int_numeral of_int_minus)

lemma floor_rat_minus_numeral:
  "\<lfloor>- ((numeral a :: rat) / numeral b)\<rfloor> = - numeral a div numeral b"
  using floor_rat_neg_numeral[of a b] by simp

lemma ceiling_rat_numeral:
  "\<lceil>(numeral a :: rat) / numeral b\<rceil> = - (- numeral a div numeral b)"
  unfolding ceiling_def minus_divide_left floor_rat_neg_numeral ..

lemma bit_length_0: "bit_length 0 = 0"
  by (simp add: bit_length.simps)

lemma bit_length_1: "bit_length (Suc 0) = 1"
  by (simp add: bit_length.simps)

lemma bit_length_numeral:
  "bit_length (numeral k) = Suc (bit_length (numeral k div 2))"
  by (subst bit_length.simps) simp

lemmas double_eval = to_double_def float_div_def float_mul_def float_add_def floor_log2_def
  pow2_def round_half_even_def bit_length_0 bit_length_1 bit_length_numeral
  floor_rat_numeral floor_rat_neg_numeral floor_rat_minus_numeral ceiling_rat_numeral Let_def

text \<open>
  29 percent of 100 and 70 percent of 5500, as the program computes them:
  28.999999999999996 and 3849.9999999999995.
\<close>

lemma float_div_29_100: "float_div 29 100 = 5224175567749775 / 18014398509481984"
  by (simp add: double_eval)

lemma budget_29_of_100:
  "float_mul 100 (float_div 29 100) = 8162774324609023 / 281474976710656"
  by (simp add: double_eval)

lemma budget_70_of_5500:
  "float_mul 5500 (float_div 70 100) = 8466239533875199 / 2199023255552"
  by (simp add: double_eval)

lemma budget_0_of_100: "float_mul 100 (float_div 0 100) = 0"
  by (simp add: double_eval)

lemma budget_40_of_1000: "float_mul 1000 (float_div 40 100) = 400"
  by (simp add: double_eval)

lemma budget_5_of_1000: "float_mul 1000 (float_div 5 100) = 50"
  by (simp add: double_eval)

lemma grand_total_29_0: "round2 (float_add (to_double 29) (to_double 0)) = 29"
  by (simp add: double_eval round2_def)

lemma grand_total_100_100: "round2 (float_add (to_double 100) (to_double 100)) = 200"
  by (simp add: double_eval round2_def)

lemma neg_third: "to_double (- (1 / 3)) = - to_double (1 / 3)"
  by (simp add: double_eval)

subsection \<open>The listing at 29, evaluated\<close>

lemma listing_29_exact_share:
  "greedy_fill_to_cap CloudVersion_Final spec_pricing (100 * 29 / 100) listing_29 Map.empty None
     True None
   = Inr (\<lparr>sel_picks = [(''Listing'', (''Listing'', ''Standard'', 29))], sel_subtotal = 29\<rparr>,
          False)"
  by (simp add: listing_29_def eval_defs upgrade_loop.simps)

lemma listing_29_float_share:
  "greedy_fill_to_cap CloudVersion_Final spec_pricing (8162774324609023 / 281474976710656)
     listing_29 Map.empty None True None
   = Inr (\<lparr>sel_picks = [(''Listing'', (''Listing'', ''Standard'', 29))], sel_subtotal = 29\<rparr>,
          True)"
  by (simp add: listing_29_def eval_defs upgrade_loop.simps)

lemma no_products:
  "greedy_fill_to_cap v P 0 [] meta d adv q = Inr (\<lparr>sel_picks = [], sel_subtotal = 0\<rparr>, False)"
  by (simp add: greedy_fill_to_cap_def greedy_unrounded_def baseline_def upgrade_loop.simps
        round2_def round_half_even_def)

section \<open>The claims\<close>

subsection \<open>C1: forced overage\<close>

text \<open>
  C1. The flag that \<^verbatim>\<open>greedy_fill_to_cap\<close> returns is true exactly when the baseline subtotal
  of phase 1 is greater than the budget; and then the selection holds the baseline picks
  and the baseline subtotal (rounded), no upgrade having been applied.
\<close>

theorem forced_overage_iff_baseline_over_budget:
  "\<exists>sel. greedy_fill_to_cap v P budget products meta d adv q
          = Inr (sel, budget < snd (baseline v P budget products meta d adv q))
     \<and> (budget < snd (baseline v P budget products meta d adv q) \<longrightarrow>
          sel_picks sel = fst (baseline v P budget products meta d adv q)
          \<and> sel_subtotal sel = round2 (snd (baseline v P budget products meta d adv q)))"
proof -
  obtain picks subtotal where b: "baseline v P budget products meta d adv q = (picks, subtotal)"
    by (cases "baseline v P budget products meta d adv q") auto
  show ?thesis
  proof (cases "budget < subtotal")
    case True
    with b show ?thesis by (simp add: greedy_fill_to_cap_def greedy_unrounded_def)
  next
    case False
    from baseline_keys[of v P budget products meta d adv q] b
    have "fst ` set picks \<subseteq> fst ` set products" by simp
    from loop_total[OF this, of v P budget meta d adv q subtotal] b False
    show ?thesis by (auto simp: greedy_fill_to_cap_def greedy_unrounded_def)
  qed
qed

theorem forced_overage_witness:
  "(50::rat) < snd (baseline CloudVersion_Final spec_pricing 50 banner_ad Map.empty None True None)
   \<and> greedy_fill_to_cap CloudVersion_Final spec_pricing 50 banner_ad Map.empty None True None
     = Inr (\<lparr>sel_picks = fst (baseline CloudVersion_Final spec_pricing 50 banner_ad Map.empty
                                  None True None),
             sel_subtotal = 100\<rparr>, True)"
  using forced_overage_iff_baseline_over_budget
          [of CloudVersion_Final spec_pricing 50 banner_ad Map.empty None True None]
  by (auto simp: banner_ad_baseline banner_ad_50)

subsection \<open>C2: the subtotal stays within the budget\<close>

text \<open>
  C2. An upgrade is applied only when \<open>subtotal - cur_line + new_line \<le> budget\<close>; a pass
  that starts within the budget ends within it; and when \<^verbatim>\<open>greedy_fill_to_cap\<close> returns
  \<open>forced_overage = False\<close>, the subtotal before its rounding is at most the budget.
\<close>

theorem subtotal_within_budget:
  "(first_fit budget subtotal0 cur_line us = Some c \<longrightarrow>
      subtotal0 - cur_line + cand_line c \<le> budget)
   \<and> (subtotal0 \<le> budget
        \<and> upgrade_pass v P budget products meta d adv q picks0 subtotal0
            = Inr (picks1, subtotal1, improved)
      \<longrightarrow> subtotal1 \<le> budget)
   \<and> (greedy_unrounded v P budget products meta d adv q = Inr (picks, subtotal, False) \<longrightarrow>
        subtotal \<le> budget
        \<and> greedy_fill_to_cap v P budget products meta d adv q
            = Inr (\<lparr>sel_picks = picks, sel_subtotal = round2 subtotal\<rparr>, False))"
proof (intro conjI impI)
  assume "first_fit budget subtotal0 cur_line us = Some c"
  from first_fit_Some[OF this] show "subtotal0 - cur_line + cand_line c \<le> budget" by simp
next
  assume "subtotal0 \<le> budget
        \<and> upgrade_pass v P budget products meta d adv q picks0 subtotal0
            = Inr (picks1, subtotal1, improved)"
  then show "subtotal1 \<le> budget" using pass_bound by blast
next
  assume g: "greedy_unrounded v P budget products meta d adv q = Inr (picks, subtotal, False)"
  obtain bp bs where b: "baseline v P budget products meta d adv q = (bp, bs)"
    by (cases "baseline v P budget products meta d adv q") auto
  from g b have le: "bs \<le> budget"
    by (auto simp: greedy_unrounded_def Let_def split: if_splits)
  with g b have "upgrade_loop v P budget products meta d adv q bp bs = Inr (picks, subtotal)"
    by (auto simp: greedy_unrounded_def Let_def split: if_splits sum.splits)
  from loop_bound[OF this le] show "subtotal \<le> budget" .
  from g show "greedy_fill_to_cap v P budget products meta d adv q
            = Inr (\<lparr>sel_picks = picks, sel_subtotal = round2 subtotal\<rparr>, False)"
    by (simp add: greedy_fill_to_cap_def)
qed

theorem subtotal_within_budget_witness:
  "first_fit 1400 100 100 [(''Banner Ad'', ''4x'', 350, 1400)]
     = Some (''Banner Ad'', ''4x'', 350, 1400)
   \<and> (100::rat) - 100 + cand_line (''Banner Ad'', ''4x'', 350, 1400) \<le> 1400
   \<and> upgrade_pass CloudVersion_Final spec_pricing 1400 banner_ad Map.empty None True None
        [(''Banner Ad'', (''Banner Ad'', ''1x'', 100))] 100
      = Inr ([(''Banner Ad'', (''Banner Ad'', ''4x'', 350))], 1400, True)
   \<and> greedy_unrounded CloudVersion_Final spec_pricing 1400 banner_ad Map.empty None True None
      = Inr ([(''Banner Ad'', (''Banner Ad'', ''4x'', 350))], 1400, False)
   \<and> greedy_fill_to_cap CloudVersion_Final spec_pricing 1400 banner_ad Map.empty None True None
      = Inr (\<lparr>sel_picks = [(''Banner Ad'', (''Banner Ad'', ''4x'', 350))],
              sel_subtotal = round2 1400\<rparr>, False)"
  using subtotal_within_budget
          [of 1400 100 100 "[(''Banner Ad'', ''4x'', 350, 1400)]"
              "(''Banner Ad'', ''4x'', 350, 1400)"
              CloudVersion_Final spec_pricing banner_ad Map.empty None True None
              "[(''Banner Ad'', (''Banner Ad'', ''1x'', 100))]"
              "[(''Banner Ad'', (''Banner Ad'', ''4x'', 350))]" 1400 True
              "[(''Banner Ad'', (''Banner Ad'', ''4x'', 350))]" 1400]
  unfolding banner_ad_unrounded_1400 banner_ad_pass_1400
  by (simp add: first_fit_def cand_line_def)

subsection \<open>C3: the baseline pick is the first cheapest point\<close>

text \<open>
  C3. For a product of the dictionary that is not named "Chicago Does Interactive Map" and
  has an eligible price point, the eligible points (in the order the loops walk them) split
  around the baseline pick: every point before it has a strictly greater line price, every
  point after it a line price at least as great. So the pick has the least line price, and is
  the first of those that have it.
\<close>

theorem baseline_pick_cheapest_first:
  assumes "pname \<noteq> ''Chicago Does Interactive Map''"
    and "distinct (map fst products)"
    and "(pname, product) \<in> set products"
    and "candidates v P pname product meta d adv q \<noteq> []"
  shows "\<exists>before opt_name lbl eff_base line after.
           candidates v P pname product meta d adv q
             = before @ (opt_name, lbl, eff_base, line) # after
           \<and> (\<forall>x\<in>set before. line < cand_line x)
           \<and> (\<forall>x\<in>set after. line \<le> cand_line x)
           \<and> line = line_price v P pname product lbl eff_base q
           \<and> map_of (fst (baseline v P budget products meta d adv q)) pname
               = Some (opt_name, lbl, eff_base)"
proof -
  from assms(1) have nm: "\<not> is_map v pname" by (simp add: is_map_def)
  from baseline_best_min[OF nm assms(4), of budget] obtain before c after where
    split: "candidates v P pname product meta d adv q = before @ c # after"
    and bef: "\<forall>x\<in>set before. cand_line c < cand_line x"
    and aft: "\<forall>x\<in>set after. cand_line c \<le> cand_line x"
    and best: "baseline_best v budget pname (candidates v P pname product meta d adv q)
               = Some (cand_pick c, cand_line c)"
    by blast
  obtain opt_name lbl eff_base line where c: "c = (opt_name, lbl, eff_base, line)"
    by (cases c) auto
  from split c have "(opt_name, lbl, eff_base, line)
                     \<in> set (candidates v P pname product meta d adv q)" by simp
  then have line: "line = line_price v P pname product lbl eff_base q"
    by (rule cand_line_consistent)
  from baseline_picks_map_of[OF assms(2,3), of v P budget meta d adv q] best c
  have "map_of (fst (baseline v P budget products meta d adv q)) pname
        = Some (opt_name, lbl, eff_base)"
    by (simp add: cand_pick_def)
  with split bef aft line c show ?thesis
    by (intro exI[of _ before] exI[of _ opt_name] exI[of _ lbl] exI[of _ eff_base]
          exI[of _ line] exI[of _ after])
       (simp add: cand_line_def)
qed

theorem baseline_pick_cheapest_first_witness:
  "''Banner Ad'' \<noteq> ''Chicago Does Interactive Map''
   \<and> distinct (map fst banner_ad)
   \<and> (''Banner Ad'', snd (hd banner_ad)) \<in> set banner_ad
   \<and> candidates CloudVersion_Final spec_pricing ''Banner Ad'' (snd (hd banner_ad)) Map.empty
        None True None \<noteq> []
   \<and> (\<exists>before opt_name lbl eff_base line after.
         candidates CloudVersion_Final spec_pricing ''Banner Ad'' (snd (hd banner_ad)) Map.empty
           None True None
           = before @ (opt_name, lbl, eff_base, line) # after
         \<and> (\<forall>x\<in>set before. line < cand_line x)
         \<and> (\<forall>x\<in>set after. line \<le> cand_line x)
         \<and> line = line_price CloudVersion_Final spec_pricing ''Banner Ad'' (snd (hd banner_ad))
                    lbl eff_base None
         \<and> map_of (fst (baseline CloudVersion_Final spec_pricing 400 banner_ad Map.empty None
                           True None)) ''Banner Ad''
             = Some (opt_name, lbl, eff_base))"
proof -
  have h1: "''Banner Ad'' \<noteq> ''Chicago Does Interactive Map''" by simp
  have h2: "distinct (map fst banner_ad)" by (simp add: banner_ad_def)
  have h3: "(''Banner Ad'', snd (hd banner_ad)) \<in> set banner_ad" by (simp add: banner_ad_def)
  have h4: "candidates CloudVersion_Final spec_pricing ''Banner Ad'' (snd (hd banner_ad))
              Map.empty None True None \<noteq> []"
    by (simp add: banner_ad_candidates)
  from baseline_pick_cheapest_first[OF h1 h2 h3 h4, of 400] h1 h2 h3 h4
  show ?thesis by blast
qed

subsection \<open>C4: the keyword "Contract with multiple products"\<close>

text \<open>
  C4. The claim holds that a label with the phrase "contract with multiple products", in any
  letter case, is restricted for a non-advertiser in both copies. The code compares its
  keywords with the lower-cased label, and this keyword is written with a capital C: it is
  found in no label. The label "Contract with multiple products" (and its lower-case form)
  is not restricted in either copy. In the CloudVersion copy the keyword is moreover joined
  with "with campaign", which is lost as a keyword of its own: "Rate with campaign" is
  restricted in the Final copy and not in the CloudVersion copy.
\<close>

theorem contract_keyword_never_matches:
  "is_restricted_tier CloudVersion_Final ''Contract with multiple products'' False = False
   \<and> is_restricted_tier CloudVersion ''Contract with multiple products'' False = False
   \<and> is_restricted_tier CloudVersion_Final ''contract with multiple products'' False = False
   \<and> is_restricted_tier CloudVersion ''contract with multiple products'' False = False
   \<and> \<not> str_in ''Contract with multiple products'' (lower label)
   \<and> \<not> str_in (''Contract with multiple products'' @ ''with campaign'') (lower label)
   \<and> is_restricted_tier CloudVersion_Final ''Rate with campaign'' False = True
   \<and> is_restricted_tier CloudVersion ''Rate with campaign'' False = False"
proof -
  have "\<not> str_in ''Contract with multiple products'' (lower label)"
    by (rule capital_keyword_dead) simp
  moreover have "\<not> str_in (''Contract with multiple products'' @ ''with campaign'') (lower label)"
    by (rule capital_keyword_dead) simp
  moreover have
    "is_restricted_tier CloudVersion_Final ''Contract with multiple products'' False = False"
    "is_restricted_tier CloudVersion ''Contract with multiple products'' False = False"
    "is_restricted_tier CloudVersion_Final ''contract with multiple products'' False = False"
    "is_restricted_tier CloudVersion ''contract with multiple products'' False = False"
    "is_restricted_tier CloudVersion_Final ''Rate with campaign'' False = True"
    "is_restricted_tier CloudVersion ''Rate with campaign'' False = False"
    by (simp_all add: is_restricted_tier_def lower_def lower_char_def restricted_keywords_def)
  ultimately show ?thesis by blast
qed

subsection \<open>C5: a greater budget\<close>

text \<open>
  C5, as amended. Two runs that differ in the budget only, \<open>b1 \<le> b2\<close>. When no product is
  priced as the Interactive Map (the CloudVersion copy, or no product of that name), the
  subtotal returned for \<open>b2\<close> is at least the one returned for \<open>b1\<close>, and a result without
  forced overage for \<open>b1\<close> is without forced overage for \<open>b2\<close>. When no eligible point has
  a negative line price, the subtotal returned for \<open>b2\<close> is at least the one returned for
  \<open>b1\<close>, the Interactive Map included.
\<close>

theorem budget_monotonicity:
  assumes "b1 \<le> b2"
    and "greedy_fill_to_cap v P b1 products meta d adv q = Inr (sel1, forced1)"
    and "greedy_fill_to_cap v P b2 products meta d adv q = Inr (sel2, forced2)"
  shows "((v = CloudVersion \<or> ''Chicago Does Interactive Map'' \<notin> fst ` set products) \<longrightarrow>
            sel_subtotal sel1 \<le> sel_subtotal sel2 \<and> (\<not> forced1 \<longrightarrow> \<not> forced2))
         \<and> ((\<forall>kv\<in>set products.
                \<forall>c\<in>set (candidates v P (fst kv) (snd kv) meta d adv q). 0 \<le> cand_line c) \<longrightarrow>
              sel_subtotal sel1 \<le> sel_subtotal sel2)"
proof (intro conjI impI)
  from assms(2) obtain s1 where
    g1: "greedy_unrounded v P b1 products meta d adv q = Inr (sel_picks sel1, s1, forced1)"
    and r1: "sel_subtotal sel1 = round2 s1"
    by (rule greedy_fill_to_cap_InrE)
  from assms(3) obtain s2 where
    g2: "greedy_unrounded v P b2 products meta d adv q = Inr (sel_picks sel2, s2, forced2)"
    and r2: "sel_subtotal sel2 = round2 s2"
    by (rule greedy_fill_to_cap_InrE)
  {
    assume "v = CloudVersion \<or> ''Chicago Does Interactive Map'' \<notin> fst ` set products"
    then have "\<forall>kv\<in>set products. \<not> is_map v (fst kv)"
      by (force simp: is_map_def)
    from baseline_no_map[OF this, of P b1 meta d adv q b2]
    have same: "baseline v P b1 products meta d adv q = baseline v P b2 products meta d adv q" .
    from greedy_same_baseline_mono(1)[OF assms(1) same g1 g2] r1 r2
    show "sel_subtotal sel1 \<le> sel_subtotal sel2" by (simp add: round2_mono)
    assume "\<not> forced1"
    from greedy_same_baseline_mono(2)[OF assms(1) same g1 g2 this]
    show "\<not> forced2" .
  }
  {
    assume "\<forall>kv\<in>set products.
              \<forall>c\<in>set (candidates v P (fst kv) (snd kv) meta d adv q). 0 \<le> cand_line c"
    from baseline_budget_mono[OF assms(1) this]
    have alt: "baseline v P b1 products meta d adv q = baseline v P b2 products meta d adv q
               \<or> b1 < snd (baseline v P b2 products meta d adv q)"
      and le: "snd (baseline v P b1 products meta d adv q)
               \<le> snd (baseline v P b2 products meta d adv q)"
      by simp_all
    from alt have "s1 \<le> s2"
    proof
      assume "baseline v P b1 products meta d adv q = baseline v P b2 products meta d adv q"
      from greedy_same_baseline_mono(1)[OF assms(1) this g1 g2] show ?thesis .
    next
      assume "b1 < snd (baseline v P b2 products meta d adv q)"
      from greedy_greater_baseline_mono[OF this le g1 g2] show ?thesis .
    qed
    with r1 r2 show "sel_subtotal sel1 \<le> sel_subtotal sel2" by (simp add: round2_mono)
  }
qed

theorem budget_monotonicity_witness:
  "(400::rat) \<le> 1400
   \<and> greedy_fill_to_cap CloudVersion_Final spec_pricing 400 banner_ad Map.empty None True None
     = Inr (\<lparr>sel_picks = [(''Banner Ad'', (''Banner Ad'', ''1x'', 100))], sel_subtotal = 100\<rparr>,
            False)
   \<and> greedy_fill_to_cap CloudVersion_Final spec_pricing 1400 banner_ad Map.empty None True None
     = Inr (\<lparr>sel_picks = [(''Banner Ad'', (''Banner Ad'', ''4x'', 350))], sel_subtotal = 1400\<rparr>,
            False)
   \<and> ''Chicago Does Interactive Map'' \<notin> fst ` set banner_ad
   \<and> list_all
        (\<lambda>kv. list_all (\<lambda>c. 0 \<le> cand_line c)
                (candidates CloudVersion_Final spec_pricing (fst kv) (snd kv) Map.empty None
                   True None))
        banner_ad
   \<and> sel_subtotal \<lparr>sel_picks = [(''Banner Ad'', (''Banner Ad'', ''1x'', 100))],
                    sel_subtotal = 100\<rparr>
     \<le> sel_subtotal \<lparr>sel_picks = [(''Banner Ad'', (''Banner Ad'', ''4x'', 350))],
                      sel_subtotal = 1400\<rparr>"
proof -
  have h1: "(400::rat) \<le> 1400" by simp
  have nomap: "''Chicago Does Interactive Map'' \<notin> fst ` set banner_ad"
    by (simp add: banner_ad_def)
  have nonneg: "list_all
        (\<lambda>kv. list_all (\<lambda>c. 0 \<le> cand_line c)
                (candidates CloudVersion_Final spec_pricing (fst kv) (snd kv) Map.empty None
                   True None))
        banner_ad"
    using banner_ad_candidates[of CloudVersion_Final None]
    by (simp add: banner_ad_def cand_line_def)
  from budget_monotonicity[OF h1 banner_ad_400 banner_ad_1400] nomap
  have "sel_subtotal \<lparr>sel_picks = [(''Banner Ad'', (''Banner Ad'', ''1x'', 100))],
                      sel_subtotal = 100\<rparr>
        \<le> sel_subtotal \<lparr>sel_picks = [(''Banner Ad'', (''Banner Ad'', ''4x'', 350))],
                         sel_subtotal = 1400\<rparr>"
    by blast
  with h1 banner_ad_400 banner_ad_1400 nomap nonneg show ?thesis by blast
qed

text \<open>
  C5 as the claim states it fails in the Final copy. The baseline pick of the Interactive
  Map is the dearest point within the budget, so it grows with the budget: with a listing at
  10 and the map at 50 or 100, the budget 99 gives a baseline of 60 and no forced overage,
  the budget 100 a baseline of 110 and a forced overage.
\<close>

theorem budget_monotonicity_counterexample:
  "(99::rat) \<le> 100
   \<and> greedy_fill_to_cap CloudVersion_Final spec_pricing 99 interactive_map_set Map.empty None
       False None
     = Inr (\<lparr>sel_picks = [(''Listing'', (''Listing'', ''Standard'', 10)),
                           (''Chicago Does Interactive Map'',
                            (''Chicago Does Interactive Map'', ''Basic'', 50))],
             sel_subtotal = 60\<rparr>, False)
   \<and> greedy_fill_to_cap CloudVersion_Final spec_pricing 100 interactive_map_set Map.empty None
       False None
     = Inr (\<lparr>sel_picks = [(''Listing'', (''Listing'', ''Standard'', 10)),
                           (''Chicago Does Interactive Map'',
                            (''Chicago Does Interactive Map'', ''Premium'', 100))],
             sel_subtotal = 110\<rparr>, True)"
  using interactive_map_99 interactive_map_100 by simp

subsection \<open>C6: the baseline pick of the Interactive Map\<close>

text \<open>
  C6. In the Final copy, for the product named "Chicago Does Interactive Map" of the
  dictionary: when an eligible point has a line price within the budget, the eligible points
  split around the baseline pick, whose line price is within the budget; every point
  before it that is within the budget has a strictly smaller line price, every such point
  after it a line price at most as great. When no eligible point is within the budget, the
  product has no baseline pick, and no pick in the selection returned.
\<close>

theorem interactive_map_baseline_pick:
  assumes "distinct (map fst products)"
    and "(''Chicago Does Interactive Map'', product) \<in> set products"
  shows
    "((\<exists>x\<in>set (candidates CloudVersion_Final P ''Chicago Does Interactive Map'' product
                    meta d adv q). cand_line x \<le> budget) \<longrightarrow>
        (\<exists>before opt_name lbl eff_base line after.
           candidates CloudVersion_Final P ''Chicago Does Interactive Map'' product meta d adv q
             = before @ (opt_name, lbl, eff_base, line) # after
           \<and> line \<le> budget
           \<and> (\<forall>x\<in>set before. cand_line x \<le> budget \<longrightarrow> cand_line x < line)
           \<and> (\<forall>x\<in>set after. cand_line x \<le> budget \<longrightarrow> cand_line x \<le> line)
           \<and> line = line_price CloudVersion_Final P ''Chicago Does Interactive Map'' product
                      lbl eff_base q
           \<and> map_of (fst (baseline CloudVersion_Final P budget products meta d adv q))
                 ''Chicago Does Interactive Map''
               = Some (opt_name, lbl, eff_base)))
     \<and> ((\<forall>x\<in>set (candidates CloudVersion_Final P ''Chicago Does Interactive Map'' product
                     meta d adv q). budget < cand_line x) \<longrightarrow>
          map_of (fst (baseline CloudVersion_Final P budget products meta d adv q))
            ''Chicago Does Interactive Map'' = None
          \<and> (\<exists>sel forced_overage.
                greedy_fill_to_cap CloudVersion_Final P budget products meta d adv q
                  = Inr (sel, forced_overage)
                \<and> ''Chicago Does Interactive Map'' \<notin> fst ` set (sel_picks sel)))"
proof (intro conjI impI)
  let ?pname = "''Chicago Does Interactive Map''"
  let ?cs = "candidates CloudVersion_Final P ?pname product meta d adv q"
  have im: "is_map CloudVersion_Final ?pname" by (simp add: is_map_def)
  {
    assume "\<exists>x\<in>set ?cs. cand_line x \<le> budget"
    from baseline_best_map_max[OF im this] obtain before c after where
      split: "?cs = before @ c # after"
      and fit: "cand_line c \<le> budget"
      and bef: "\<forall>x\<in>set before. cand_line x \<le> budget \<longrightarrow> cand_line x < cand_line c"
      and aft: "\<forall>x\<in>set after. cand_line x \<le> budget \<longrightarrow> cand_line x \<le> cand_line c"
      and best: "baseline_best CloudVersion_Final budget ?pname ?cs
                 = Some (cand_pick c, cand_line c)"
      by blast
    obtain opt_name lbl eff_base line where c: "c = (opt_name, lbl, eff_base, line)"
      by (cases c) auto
    from split c have "(opt_name, lbl, eff_base, line) \<in> set ?cs" by simp
    then have line: "line = line_price CloudVersion_Final P ?pname product lbl eff_base q"
      by (rule cand_line_consistent)
    from baseline_picks_map_of[OF assms, of CloudVersion_Final P budget meta d adv q] best c
    have "map_of (fst (baseline CloudVersion_Final P budget products meta d adv q)) ?pname
          = Some (opt_name, lbl, eff_base)"
      by (simp add: cand_pick_def)
    with split fit bef aft line c
    show "\<exists>before opt_name lbl eff_base line after.
           ?cs = before @ (opt_name, lbl, eff_base, line) # after
           \<and> line \<le> budget
           \<and> (\<forall>x\<in>set before. cand_line x \<le> budget \<longrightarrow> cand_line x < line)
           \<and> (\<forall>x\<in>set after. cand_line x \<le> budget \<longrightarrow> cand_line x \<le> line)
           \<and> line = line_price CloudVersion_Final P ?pname product lbl eff_base q
           \<and> map_of (fst (baseline CloudVersion_Final P budget products meta d adv q)) ?pname
               = Some (opt_name, lbl, eff_base)"
      by (intro exI[of _ before] exI[of _ opt_name] exI[of _ lbl] exI[of _ eff_base]
            exI[of _ line] exI[of _ after])
         (simp add: cand_line_def)
  }
  {
    assume "\<forall>x\<in>set ?cs. budget < cand_line x"
    from baseline_best_map_none[OF im this]
      baseline_picks_map_of[OF assms, of CloudVersion_Final P budget meta d adv q]
    show none: "map_of (fst (baseline CloudVersion_Final P budget products meta d adv q)) ?pname
                = None"
      by simp
    then have notin: "?pname \<notin> fst ` set (fst (baseline CloudVersion_Final P budget products
                                                  meta d adv q))"
      by (simp add: map_of_eq_None_iff)
    obtain bp bs where b: "baseline CloudVersion_Final P budget products meta d adv q = (bp, bs)"
      by (cases "baseline CloudVersion_Final P budget products meta d adv q") auto
    from greedy_unrounded_total[of CloudVersion_Final P budget products meta d adv q]
    obtain picks subtotal fo where
      g: "greedy_unrounded CloudVersion_Final P budget products meta d adv q
          = Inr (picks, subtotal, fo)" by blast
    have "map fst picks = map fst bp"
    proof (cases "budget < bs")
      case True
      with g b show ?thesis by (simp add: greedy_unrounded_def)
    next
      case False
      with g b have "upgrade_loop CloudVersion_Final P budget products meta d adv q bp bs
                     = Inr (picks, subtotal)"
        by (auto simp: greedy_unrounded_def split: sum.splits)
      then show ?thesis by (rule loop_keys)
    qed
    then have "fst ` set picks = fst ` set bp" by (metis set_map)
    with notin b have "?pname \<notin> fst ` set picks" by simp
    with g
    show "\<exists>sel forced_overage.
                greedy_fill_to_cap CloudVersion_Final P budget products meta d adv q
                  = Inr (sel, forced_overage)
                \<and> ?pname \<notin> fst ` set (sel_picks sel)"
      by (simp add: greedy_fill_to_cap_def)
  }
qed


theorem interactive_map_baseline_pick_witness:
  "distinct (map fst interactive_map_set)
   \<and> (''Chicago Does Interactive Map'', snd (interactive_map_set ! 1)) \<in> set interactive_map_set
   \<and> (\<exists>x\<in>set (candidates CloudVersion_Final spec_pricing ''Chicago Does Interactive Map''
                   (snd (interactive_map_set ! 1)) Map.empty None False None).
         cand_line x \<le> 99)
   \<and> map_of (fst (baseline CloudVersion_Final spec_pricing 99 interactive_map_set Map.empty
                     None False None)) ''Chicago Does Interactive Map''
       = Some (''Chicago Does Interactive Map'', ''Basic'', 50)
   \<and> (\<exists>before opt_name lbl eff_base line after.
         candidates CloudVersion_Final spec_pricing ''Chicago Does Interactive Map''
           (snd (interactive_map_set ! 1)) Map.empty None False None
           = before @ (opt_name, lbl, eff_base, line) # after
         \<and> line \<le> 99
         \<and> map_of (fst (baseline CloudVersion_Final spec_pricing 99 interactive_map_set
                           Map.empty None False None)) ''Chicago Does Interactive Map''
             = Some (opt_name, lbl, eff_base))
   \<and> list_all (\<lambda>x. 40 < cand_line x)
         (candidates CloudVersion_Final spec_pricing ''Chicago Does Interactive Map''
            (snd (interactive_map_set ! 1)) Map.empty None False None)
   \<and> map_of (fst (baseline CloudVersion_Final spec_pricing 40 interactive_map_set Map.empty
                     None False None)) ''Chicago Does Interactive Map'' = None
   \<and> (\<exists>sel forced_overage.
         greedy_fill_to_cap CloudVersion_Final spec_pricing 40 interactive_map_set Map.empty
           None False None = Inr (sel, forced_overage)
         \<and> ''Chicago Does Interactive Map'' \<notin> fst ` set (sel_picks sel))"
proof -
  have h1: "distinct (map fst interactive_map_set)" by (simp add: interactive_map_set_def)
  have h2: "(''Chicago Does Interactive Map'', snd (interactive_map_set ! 1))
            \<in> set interactive_map_set"
    by (simp add: interactive_map_set_def)
  have fit: "\<exists>x\<in>set (candidates CloudVersion_Final spec_pricing ''Chicago Does Interactive Map''
                       (snd (interactive_map_set ! 1)) Map.empty None False None).
               cand_line x \<le> 99"
    unfolding interactive_map_candidates by (simp add: cand_line_def)
  have nofit: "\<forall>x\<in>set (candidates CloudVersion_Final spec_pricing
                          ''Chicago Does Interactive Map'' (snd (interactive_map_set ! 1))
                          Map.empty None False None).
                 40 < cand_line x"
    unfolding interactive_map_candidates by (simp add: cand_line_def)
  have pick: "map_of (fst (baseline CloudVersion_Final spec_pricing 99 interactive_map_set
                             Map.empty None False None)) ''Chicago Does Interactive Map''
              = Some (''Chicago Does Interactive Map'', ''Basic'', 50)"
    unfolding interactive_map_baseline_99 by simp
  from interactive_map_baseline_pick[OF h1 h2, of spec_pricing Map.empty None False None 99]
    fit
  have a: "\<exists>before opt_name lbl eff_base line after.
         candidates CloudVersion_Final spec_pricing ''Chicago Does Interactive Map''
           (snd (interactive_map_set ! 1)) Map.empty None False None
           = before @ (opt_name, lbl, eff_base, line) # after
         \<and> line \<le> 99
         \<and> map_of (fst (baseline CloudVersion_Final spec_pricing 99 interactive_map_set
                           Map.empty None False None)) ''Chicago Does Interactive Map''
             = Some (opt_name, lbl, eff_base)"
    by blast
  from interactive_map_baseline_pick[OF h1 h2, of spec_pricing Map.empty None False None 40]
    nofit
  have b: "map_of (fst (baseline CloudVersion_Final spec_pricing 40 interactive_map_set Map.empty
                     None False None)) ''Chicago Does Interactive Map'' = None
   \<and> (\<exists>sel forced_overage.
         greedy_fill_to_cap CloudVersion_Final spec_pricing 40 interactive_map_set Map.empty
           None False None = Inr (sel, forced_overage)
         \<and> ''Chicago Does Interactive Map'' \<notin> fst ` set (sel_picks sel))"
    by blast
  from nofit have nofit': "list_all (\<lambda>x. 40 < cand_line x)
         (candidates CloudVersion_Final spec_pricing ''Chicago Does Interactive Map''
            (snd (interactive_map_set ! 1)) Map.empty None False None)"
    by (simp add: list_all_iff)
  from h1 h2 fit nofit' pick a b show ?thesis by blast
qed

subsection \<open>C7: the line price of the Interactive Map\<close>

text \<open>
  C7. For the product named exactly "Chicago Does Interactive Map", \<^verbatim>\<open>map_line_price\<close> is
  the unit price times the quarter count, a count of \<^verbatim>\<open>None\<close> or 0 counting as 1; for
  every other product name it is \<^verbatim>\<open>None\<close>, and the line price of the Final copy is then
  that of \<^verbatim>\<open>effective_line_price\<close>.
\<close>

theorem map_line_price_quarters:
  "map_line_price ''Chicago Does Interactive Map'' tier_label unit_price None = Some unit_price
   \<and> map_line_price ''Chicago Does Interactive Map'' tier_label unit_price (Some 0)
       = Some unit_price
   \<and> (n \<noteq> 0 \<longrightarrow>
        map_line_price ''Chicago Does Interactive Map'' tier_label unit_price (Some n)
        = Some (unit_price * of_int n))
   \<and> (pname \<noteq> ''Chicago Does Interactive Map'' \<longrightarrow>
        map_line_price pname tier_label unit_price quarters = None
        \<and> line_price CloudVersion_Final P pname product tier_label unit_price quarters
            = effective_line_price P product tier_label unit_price)"
  by (simp add: map_line_price_def line_price_def)

theorem map_line_price_quarters_witness:
  "(3::int) \<noteq> 0
   \<and> map_line_price ''Chicago Does Interactive Map'' ''4x'' 350 (Some 3) = Some 1050
   \<and> ''Banner Ad'' \<noteq> ''Chicago Does Interactive Map''
   \<and> map_line_price ''Banner Ad'' ''4x'' 350 (Some 3) = None
   \<and> line_price CloudVersion_Final spec_pricing ''Banner Ad'' (snd (hd banner_ad)) ''4x'' 350
        (Some 3) = 1400"
  using map_line_price_quarters
          [where tier_label = "''4x''" and unit_price = 350 and n = 3
             and pname = "''Banner Ad''" and quarters = "Some 3" and P = spec_pricing
             and product = "snd (hd banner_ad)"]
  by (simp add: spec_pricing_def spec_effective_line_price_def tier_quantity_def
        digit_value_def lower_char_def)

subsection \<open>C8: the "Banner Ad" scenario\<close>

text \<open>
  C8. With the line price of the claim itself (unit price times the quantity read from the
  label), the point "4x" at unit price 350 costs 1400, which is over the budget of 400: the
  baseline picks "1x" at 100, the upgrade loop applies no upgrade, and the subtotal returned
  is 100, not 350. With a budget of 1400 the loop does upgrade to "4x".
\<close>

theorem banner_ad_scenario:
  "baseline CloudVersion_Final spec_pricing 400 banner_ad Map.empty None True None
     = ([(''Banner Ad'', (''Banner Ad'', ''1x'', 100))], 100)
   \<and> candidates CloudVersion_Final spec_pricing ''Banner Ad'' (snd (hd banner_ad)) Map.empty
       None True None
     = [(''Banner Ad'', ''1x'', 100, 100), (''Banner Ad'', ''4x'', 350, 1400)]
   \<and> greedy_fill_to_cap CloudVersion_Final spec_pricing 400 banner_ad Map.empty None True None
     = Inr (\<lparr>sel_picks = [(''Banner Ad'', (''Banner Ad'', ''1x'', 100))], sel_subtotal = 100\<rparr>,
            False)
   \<and> greedy_fill_to_cap CloudVersion_Final spec_pricing 1400 banner_ad Map.empty None True None
     = Inr (\<lparr>sel_picks = [(''Banner Ad'', (''Banner Ad'', ''4x'', 350))], sel_subtotal = 1400\<rparr>,
            False)"
  unfolding banner_ad_baseline banner_ad_400 banner_ad_1400
  by (simp add: banner_ad_def eval_defs)

theorem banner_ad_subtotal_not_350:
  "greedy_fill_to_cap CloudVersion_Final spec_pricing 400 banner_ad Map.empty None True None
   \<noteq> Inr (\<lparr>sel_picks = [(''Banner Ad'', (''Banner Ad'', ''4x'', 350))], sel_subtotal = 350\<rparr>,
          False)
   \<and> map_sum id (sel_subtotal \<circ> fst)
       (greedy_fill_to_cap CloudVersion_Final spec_pricing 400 banner_ad Map.empty None True None)
     \<noteq> Inr 350"
  unfolding banner_ad_400 by simp

subsection \<open>C9: the two pools\<close>

text \<open>
  C9, as amended. \<^verbatim>\<open>run_fill_to_cap\<close> allocates the tourist pool with the budget that
  \<^verbatim>\<open>total_budget * (tourist_pct / 100.0)\<close> gives in double precision, the quotient and then
  the product each rounded to a double, and the industry pool likewise, whatever the two
  percentages add up to; both allocations return; the grand total is the sum of the two
  returned subtotals, rounded to two decimals; and the warning is the fixed text of the copy
  when one of the two allocations reports a forced overage, \<^verbatim>\<open>None\<close> otherwise.
\<close>

theorem run_fill_to_cap_pools:
  "\<exists>t_sel t_warn i_sel i_warn.
     greedy_fill_to_cap v P (float_mul total_budget (float_div tourist_pct 100)) t_set
       meta d adv q = Inr (t_sel, t_warn)
     \<and> greedy_fill_to_cap v P (float_mul total_budget (float_div industry_pct 100)) i_set
         meta d adv q = Inr (i_sel, i_warn)
     \<and> run_fill_to_cap v P total_budget tourist_pct industry_pct t_set i_set meta d adv q
       = Inr (t_sel, i_sel,
              round2 (float_add (to_double (sel_subtotal t_sel))
                                (to_double (sel_subtotal i_sel))),
              if t_warn \<or> i_warn then Some (warning_text v) else None)"
proof -
  let ?tb = "float_mul total_budget (float_div tourist_pct 100)"
  let ?ib = "float_mul total_budget (float_div industry_pct 100)"
  from greedy_unrounded_total[of v P ?tb t_set meta d adv q]
  obtain t_sel t_warn where
    t: "greedy_fill_to_cap v P ?tb t_set meta d adv q = Inr (t_sel, t_warn)"
    by (auto simp: greedy_fill_to_cap_def)
  from greedy_unrounded_total[of v P ?ib i_set meta d adv q]
  obtain i_sel i_warn where
    i: "greedy_fill_to_cap v P ?ib i_set meta d adv q = Inr (i_sel, i_warn)"
    by (auto simp: greedy_fill_to_cap_def)
  from t i have "run_fill_to_cap v P total_budget tourist_pct industry_pct t_set i_set meta d adv q
       = Inr (t_sel, i_sel,
              round2 (float_add (to_double (sel_subtotal t_sel))
                                (to_double (sel_subtotal i_sel))),
              if t_warn \<or> i_warn then Some (warning_text v) else None)"
    by (simp add: run_fill_to_cap_def Let_def)
  with t i show ?thesis by blast
qed

theorem run_fill_to_cap_pools_witness:
  "run_fill_to_cap CloudVersion_Final spec_pricing 1000 40 5 banner_ad banner_ad Map.empty None
     True None
   = Inr (\<lparr>sel_picks = [(''Banner Ad'', (''Banner Ad'', ''1x'', 100))], sel_subtotal = 100\<rparr>,
          \<lparr>sel_picks = [(''Banner Ad'', (''Banner Ad'', ''1x'', 100))], sel_subtotal = 100\<rparr>,
          200, Some (warning_text CloudVersion_Final))"
  using run_fill_to_cap_pools
          [of CloudVersion_Final spec_pricing 1000 40 banner_ad Map.empty None True None 5
              banner_ad]
  unfolding budget_40_of_1000 budget_5_of_1000
  by (auto simp: banner_ad_400 banner_ad_50 grand_total_100_100)

text \<open>
  C9 as the claim states it, with the exact share \<open>total_budget * tourist_pct / 100\<close> for
  the budget, fails. For 29 percent of 100 the program's budget is
  28.999999999999996, below the exact share 29: with one listing at 29 in the tourist pool
  and nothing in the industry pool, the allocations at the exact shares report no forced
  overage, while \<^verbatim>\<open>run_fill_to_cap\<close> returns the warning.
\<close>

theorem run_fill_to_cap_exact_share_counterexample:
  "float_mul 100 (float_div 29 100) = 8162774324609023 / 281474976710656
   \<and> float_mul 100 (float_div 29 100) < 100 * 29 / 100
   \<and> greedy_fill_to_cap CloudVersion_Final spec_pricing (100 * 29 / 100) listing_29 Map.empty
       None True None
     = Inr (\<lparr>sel_picks = [(''Listing'', (''Listing'', ''Standard'', 29))], sel_subtotal = 29\<rparr>,
            False)
   \<and> greedy_fill_to_cap CloudVersion_Final spec_pricing (100 * 0 / 100) [] Map.empty None True
       None
     = Inr (\<lparr>sel_picks = [], sel_subtotal = 0\<rparr>, False)
   \<and> run_fill_to_cap CloudVersion_Final spec_pricing 100 29 0 listing_29 [] Map.empty None
       True None
     = Inr (\<lparr>sel_picks = [(''Listing'', (''Listing'', ''Standard'', 29))], sel_subtotal = 29\<rparr>,
            \<lparr>sel_picks = [], sel_subtotal = 0\<rparr>,
            29, Some (warning_text CloudVersion_Final))"
proof -
  have "run_fill_to_cap CloudVersion_Final spec_pricing 100 29 0 listing_29 [] Map.empty None
       True None
     = Inr (\<lparr>sel_picks = [(''Listing'', (''Listing'', ''Standard'', 29))], sel_subtotal = 29\<rparr>,
            \<lparr>sel_picks = [], sel_subtotal = 0\<rparr>,
            29, Some (warning_text CloudVersion_Final))"
    unfolding run_fill_to_cap_def budget_29_of_100 budget_0_of_100
    by (simp add: listing_29_float_share no_products grand_total_29_0)
  moreover have "greedy_fill_to_cap CloudVersion_Final spec_pricing (100 * 0 / 100) []
                   Map.empty None True None
                 = Inr (\<lparr>sel_picks = [], sel_subtotal = 0\<rparr>, False)"
    by (simp add: no_products)
  moreover have "float_mul 100 (float_div 29 100) < 100 * 29 / 100"
    unfolding budget_29_of_100 by simp
  ultimately show ?thesis
    using budget_29_of_100 listing_29_exact_share by blast
qed

subsection \<open>C10: the allocator terminates\<close>

text \<open>
  C10. \<^verbatim>\<open>greedy_fill_to_cap\<close> returns for every input, and without a \<^verbatim>\<open>KeyError\<close>. When
  the baseline fits the budget, the \<^verbatim>\<open>while\<close> loop makes \<open>n\<close> improving passes and one
  last pass that changes nothing, where \<open>n\<close> is at most the number of upgrade candidates
  the baseline picks have; the subtotal it ends with is within the budget. (The loop itself
  is \<open>upgrade_loop\<close>, whose termination is proved above from the same count, which every
  improving pass lowers.)
\<close>

theorem greedy_fill_to_cap_terminates:
  "\<exists>sel forced_overage.
     greedy_fill_to_cap v P budget products meta d adv q = Inr (sel, forced_overage)
     \<and> (\<not> forced_overage \<longrightarrow>
          (\<exists>n subtotal'.
             n \<le> potential v P products meta d adv q
                   (fst (baseline v P budget products meta d adv q))
             \<and> improving_passes n v P budget products meta d adv q
                  (fst (baseline v P budget products meta d adv q))
                  (snd (baseline v P budget products meta d adv q))
                = Some (sel_picks sel, subtotal')
             \<and> upgrade_pass v P budget products meta d adv q (sel_picks sel) subtotal'
                = Inr (sel_picks sel, subtotal', False)
             \<and> subtotal' \<le> budget
             \<and> sel_subtotal sel = round2 subtotal'))"
proof -
  obtain picks subtotal where b: "baseline v P budget products meta d adv q = (picks, subtotal)"
    by (cases "baseline v P budget products meta d adv q") auto
  show ?thesis
  proof (cases "budget < subtotal")
    case True
    with b show ?thesis by (auto simp: greedy_fill_to_cap_def greedy_unrounded_def)
  next
    case False
    from baseline_keys[of v P budget products meta d adv q] b
    have "fst ` set picks \<subseteq> fst ` set products" by simp
    from loop_passes[OF this, of v P meta d adv q budget subtotal]
    obtain n picks' subtotal' where
      n: "n \<le> potential v P products meta d adv q picks"
      and ip: "improving_passes n v P budget products meta d adv q picks subtotal
               = Some (picks', subtotal')"
      and stable: "upgrade_pass v P budget products meta d adv q picks' subtotal'
                = Inr (picks', subtotal', False)"
      and loop: "upgrade_loop v P budget products meta d adv q picks subtotal
                 = Inr (picks', subtotal')"
      by blast
    from loop_bound[OF loop] False have "subtotal' \<le> budget" by simp
    with b False n ip stable loop show ?thesis
      by (auto simp: greedy_fill_to_cap_def greedy_unrounded_def)
  qed
qed

theorem greedy_fill_to_cap_terminates_witness:
  "greedy_fill_to_cap CloudVersion_Final spec_pricing 1400 banner_ad Map.empty None True None
   = Inr (\<lparr>sel_picks = [(''Banner Ad'', (''Banner Ad'', ''4x'', 350))], sel_subtotal = 1400\<rparr>,
          False)
   \<and> (\<exists>n subtotal'.
         n \<le> potential CloudVersion_Final spec_pricing banner_ad Map.empty None True None
                 (fst (baseline CloudVersion_Final spec_pricing 1400 banner_ad Map.empty None
                         True None))
         \<and> improving_passes n CloudVersion_Final spec_pricing 1400 banner_ad Map.empty None True
              None
              (fst (baseline CloudVersion_Final spec_pricing 1400 banner_ad Map.empty None True
                      None))
              (snd (baseline CloudVersion_Final spec_pricing 1400 banner_ad Map.empty None True
                      None))
            = Some ([(''Banner Ad'', (''Banner Ad'', ''4x'', 350))], subtotal')
         \<and> subtotal' \<le> 1400)"
  using greedy_fill_to_cap_terminates
          [of CloudVersion_Final spec_pricing 1400 banner_ad Map.empty None True None]
  by (auto simp: banner_ad_1400)

end
